theory Spec2Isabelle
  imports Main
begin

section \<open>The integrated concurrent pipeline of main.go\<close>

text \<open>
  The development embeds the integrated demonstration of \<^verbatim>\<open>main.go\<close>:
  \<^verbatim>\<open>fetchWithTimeout\<close>, \<^verbatim>\<open>processingWorker\<close>, \<^verbatim>\<open>outputPipeline\<close>, the
  \<^verbatim>\<open>Stats\<close> methods and the orchestration in \<^verbatim>\<open>demonstrateIntegrated\<close>.

  Conventions.
  \<^item> A \<^verbatim>\<open>time.Duration\<close> is an \<open>int\<close>, counted in milliseconds.
  \<^item> A Go \<^verbatim>\<open>int\<close> counter is an \<open>int\<close>. The counters of the program never exceed
    \<^verbatim>\<open>len(sources)\<close>, itself a Go \<^verbatim>\<open>int\<close>, so the 64-bit wrap-around is out of reach.
  \<^item> A Go \<^verbatim>\<open>error\<close> is its message, a \<open>string\<close>; a nil pointer or nil error is \<open>None\<close>.
  \<^item> An operation of the Go runtime either blocks the goroutine (\<open>Stuck\<close>), panics
    (\<open>Panic\<close>: no \<^verbatim>\<open>recover\<close> occurs in the program, so a panic ends the process) or
    completes (\<open>Next\<close>).
\<close>

subsection \<open>Results of runtime operations\<close>

datatype 'a res = Stuck | Panic | Next 'a

definition bind_res :: "'a res \<Rightarrow> ('a \<Rightarrow> 'b res) \<Rightarrow> 'b res" where
  "bind_res r f = (case r of Stuck \<Rightarrow> Stuck | Panic \<Rightarrow> Panic | Next x \<Rightarrow> f x)"

subsection \<open>Data\<close>

type_synonym duration = int

record APIResponse =
  Source :: string
  Data :: string
  Time :: duration

record ProcessedData =
  ID :: int
  Original :: string
  Processed :: string
  Source :: string

subsection \<open>Buffered channels\<close>

text \<open>
  \<^verbatim>\<open>make(chan T, n)\<close> with its buffer, its capacity and its closed flag. A send on a
  closed channel panics, a send on a full channel blocks; a receive takes the oldest
  element, reports end-of-stream on a closed and drained channel, and blocks on an open
  empty one; closing a closed channel panics. The hand-over of an unbuffered channel
  (capacity 0) to a waiting receiver is not part of this type: the only unbuffered channel
  of the pipeline, \<^verbatim>\<open>done\<close>, is modelled in the step function of the output stage.
\<close>

record 'a chan =
  buf :: "'a list"
  cap :: nat
  closed :: bool

definition make_chan :: "nat \<Rightarrow> 'a chan" where
  "make_chan n = \<lparr>buf = [], cap = n, closed = False\<rparr>"

definition chan_send :: "'a chan \<Rightarrow> 'a \<Rightarrow> 'a chan res" where
  "chan_send c v =
     (if closed c then Panic
      else if length (buf c) < cap c then Next (c\<lparr>buf := buf c @ [v]\<rparr>)
      else Stuck)"

datatype 'a recv = RBlock | REnd | RItem 'a "'a chan"

definition chan_recv :: "'a chan \<Rightarrow> 'a recv" where
  "chan_recv c =
     (case buf c of
        v # rest \<Rightarrow> RItem v (c\<lparr>buf := rest\<rparr>)
      | [] \<Rightarrow> (if closed c then REnd else RBlock))"

definition chan_close :: "'a chan \<Rightarrow> 'a chan res" where
  "chan_close c = (if closed c then Panic else Next (c\<lparr>closed := True\<rparr>))"

subsection \<open>Statistics\<close>

text \<open>
  \<^verbatim>\<open>Stats\<close> with its mutex: \<open>mu\<close> is true while the mutex is held. \<^verbatim>\<open>Lock\<close> blocks
  on a held mutex; \<^verbatim>\<open>Unlock\<close> of a free mutex is a fatal error of the runtime. Every
  method locks, does its work and unlocks on return (\<^verbatim>\<open>defer s.mu.Unlock()\<close>).
  \<^verbatim>\<open>Print\<close> returns the three numbers it formats.
\<close>

record Stats =
  mu :: bool
  totalFetched :: int
  totalProcessed :: int
  errors :: int

definition Lock :: "Stats \<Rightarrow> Stats res" where
  "Lock s = (if mu s then Stuck else Next (s\<lparr>mu := True\<rparr>))"

definition Unlock :: "Stats \<Rightarrow> Stats res" where
  "Unlock s = (if mu s then Next (s\<lparr>mu := False\<rparr>) else Panic)"

definition IncrementFetched :: "Stats \<Rightarrow> Stats res" where
  "IncrementFetched s =
     bind_res (Lock s) (\<lambda>s1. Unlock (s1\<lparr>totalFetched := totalFetched s1 + 1\<rparr>))"

definition IncrementProcessed :: "Stats \<Rightarrow> Stats res" where
  "IncrementProcessed s =
     bind_res (Lock s) (\<lambda>s1. Unlock (s1\<lparr>totalProcessed := totalProcessed s1 + 1\<rparr>))"

definition IncrementErrors :: "Stats \<Rightarrow> Stats res" where
  "IncrementErrors s =
     bind_res (Lock s) (\<lambda>s1. Unlock (s1\<lparr>errors := errors s1 + 1\<rparr>))"

definition Print :: "Stats \<Rightarrow> ((int \<times> int \<times> int) \<times> Stats) res" where
  "Print s =
     bind_res (Lock s) (\<lambda>s1.
       bind_res (Unlock s1) (\<lambda>s2.
         Next ((totalFetched s1, totalProcessed s1, errors s1), s2)))"

subsection \<open>Stage 1: fetchWithTimeout\<close>

text \<open>
  The goroutine started by \<^verbatim>\<open>fetchWithTimeout\<close> sleeps for \<open>fetchTime\<close> (the value of
  \<^verbatim>\<open>rand.Intn(800)\<close> milliseconds, an input of the model) and then sends its response on
  \<^verbatim>\<open>responseChan\<close>, whose capacity 1 lets the send complete even when nobody receives.
  No statement of the function sends on \<^verbatim>\<open>errorChan\<close>. The channel of
  \<^verbatim>\<open>time.After(timeout)\<close> holds a value from instant \<open>timeout\<close> on. A sleep or a timer
  of a negative duration is over at once. The three functions below give the contents of
  the three channels at instant \<open>t\<close> after the call.
\<close>

definition mk_response :: "string \<Rightarrow> duration \<Rightarrow> APIResponse" where
  "mk_response source ft =
     \<lparr>APIResponse.Source = source, Data = ''data-from-'' @ source, Time = ft\<rparr>"

definition responseChan_at :: "string \<Rightarrow> duration \<Rightarrow> duration \<Rightarrow> APIResponse list" where
  "responseChan_at source ft t = (if max 0 ft \<le> t then [mk_response source ft] else [])"

definition errorChan_at :: "duration \<Rightarrow> string list" where
  "errorChan_at t = []"

definition timer_at :: "duration \<Rightarrow> duration \<Rightarrow> unit list" where
  "timer_at tmo t = (if max 0 tmo \<le> t then [()] else [])"

text \<open>
  The \<^verbatim>\<open>select\<close> blocks until the first instant at which one of its cases can
  proceed, and then takes one of the cases that can proceed, chosen by the runtime at
  random (\<open>pk\<close>).
\<close>

datatype select_case = GotResponse APIResponse | GotError string | GotTimeout

definition wake :: "duration \<Rightarrow> duration \<Rightarrow> duration" where
  "wake ft tmo = min (max 0 ft) (max 0 tmo)"

definition ready_cases :: "string \<Rightarrow> duration \<Rightarrow> duration \<Rightarrow> duration \<Rightarrow> select_case list" where
  "ready_cases source ft tmo t =
     map GotResponse (take 1 (responseChan_at source ft t)) @
     map GotError (take 1 (errorChan_at t)) @
     map (\<lambda>_. GotTimeout) (take 1 (timer_at tmo t))"

definition select_fetch :: "string \<Rightarrow> duration \<Rightarrow> duration \<Rightarrow> nat \<Rightarrow> select_case res" where
  "select_fetch source ft tmo pk =
     (let rs = ready_cases source ft tmo (wake ft tmo)
      in if rs = [] then Stuck else Next (rs ! (pk mod length rs)))"

definition timeout_error :: "string \<Rightarrow> string" where
  "timeout_error source = ''timeout fetching from '' @ source"

definition fetchWithTimeout ::
  "string \<Rightarrow> duration \<Rightarrow> duration \<Rightarrow> nat \<Rightarrow> Stats \<Rightarrow>
     ((APIResponse option \<times> string option) \<times> Stats) res" where
  "fetchWithTimeout source tmo ft pk st =
     bind_res (select_fetch source ft tmo pk) (\<lambda>c.
       case c of
         GotResponse response \<Rightarrow>
           bind_res (IncrementFetched st) (\<lambda>st'. Next ((Some response, None), st'))
       | GotError err \<Rightarrow>
           bind_res (IncrementErrors st) (\<lambda>st'. Next ((None, Some err), st'))
       | GotTimeout \<Rightarrow>
           bind_res (IncrementErrors st) (\<lambda>st'. Next ((None, Some (timeout_error source)), st')))"

subsection \<open>WaitGroups\<close>

definition wg_Add :: "int \<Rightarrow> int \<Rightarrow> int res" where
  "wg_Add wg d = (if wg + d < 0 then Panic else Next (wg + d))"

definition wg_Done :: "int \<Rightarrow> int res" where
  "wg_Done wg = wg_Add wg (- 1)"

definition wg_Wait :: "int \<Rightarrow> unit res" where
  "wg_Wait wg = (if wg = 0 then Next () else Stuck)"

subsection \<open>The pipeline of demonstrateIntegrated\<close>

text \<open>
  The configuration holds what \<^verbatim>\<open>demonstrateIntegrated\<close> fixes as constants (the
  sources, \<^verbatim>\<open>numWorkers\<close>, the timeout, the capacity of the two stage queues) and the
  inputs from the environment: for the fetch goroutine started \<open>i\<close>-th, the value of
  \<^verbatim>\<open>rand.Intn(800)\<close> and the random choice of its \<^verbatim>\<open>select\<close>.
\<close>

record config =
  sources :: "string list"
  numWorkers :: int
  timeout :: duration
  capacity :: nat
  fetchTime :: "nat \<Rightarrow> duration"
  pick :: "nat \<Rightarrow> nat"

definition integrated_config :: "(nat \<Rightarrow> duration) \<Rightarrow> (nat \<Rightarrow> nat) \<Rightarrow> config" where
  "integrated_config ft pk =
     \<lparr>sources = [''API-1'', ''API-2'', ''API-3'', ''API-4'', ''API-5''],
      numWorkers = 3,
      timeout = 1000,
      capacity = length [''API-1'', ''API-2'', ''API-3'', ''API-4'', ''API-5''],
      fetchTime = ft,
      pick = pk\<rparr>"

text \<open>
  Program counters. Each goroutine is cut at its actions on shared state (the
  statistics, the WaitGroups, the stage queues); the local computation between two such
  actions belongs to the step that follows it. A call of \<^verbatim>\<open>fetchWithTimeout\<close> is one
  step: its goroutine and its channels are local to the call, and its one action on shared
  state is the increment of a counter. Sleeping and printing take no step.
  \<^item> fetch goroutine (the closure of stage 1): call \<^verbatim>\<open>fetchWithTimeout\<close>; send the
    response on \<^verbatim>\<open>fetchedData\<close>; deferred \<^verbatim>\<open>fetchWg.Done()\<close>; finished.
  \<^item> closer: not started; \<^verbatim>\<open>Wait()\<close>; \<^verbatim>\<open>close\<close>; finished.
  \<^item> \<^verbatim>\<open>processingWorker\<close>: receive of the \<^verbatim>\<open>range\<close> loop; build the result and
    \<^verbatim>\<open>IncrementProcessed\<close>; send the result; deferred \<^verbatim>\<open>wg.Done()\<close>; finished.
  \<^item> \<^verbatim>\<open>outputPipeline\<close>: not started; receive of the \<^verbatim>\<open>range\<close> loop;
    \<^verbatim>\<open>done <- true\<close>; finished.
  \<^item> \<^verbatim>\<open>demonstrateIntegrated\<close> itself: the loop over the remaining sources, the start
    of the first closer, the loop over the worker ids, the start of the second closer, the
    start of the output stage, \<^verbatim>\<open><-done\<close>, \<^verbatim>\<open>stats.Print()\<close>, finished.
\<close>

datatype fpc = FFetch | FSend APIResponse | FDefer | FExit

datatype cpc = CNotStarted | CWait | CClose | CExit

datatype wpc = WRecv | WProcess APIResponse | WSend ProcessedData | WDefer | WExit

datatype opc = ONotStarted | ORecv | OSendDone | OExit

datatype mpc =
  MSpawnF "string list" | MSpawnC1 | MSpawnW int | MSpawnC2 | MSpawnO | MWait | MPrint | MDone

record state =
  mainpc :: mpc
  fetchers :: "(string \<times> fpc) list"
  closer1 :: cpc
  workers :: "(int \<times> wpc) list"
  closer2 :: cpc
  outp :: opc
  fetchWg :: int
  processWg :: int
  fetchedData :: "APIResponse chan"
  processedData :: "ProcessedData chan"
  stats :: Stats
  printed :: "ProcessedData list"
  count :: int
  report :: "(int \<times> int \<times> int) option"

definition init :: "config \<Rightarrow> state" where
  "init cfg =
     \<lparr>mainpc = MSpawnF (sources cfg),
      fetchers = [],
      closer1 = CNotStarted,
      workers = [],
      closer2 = CNotStarted,
      outp = ONotStarted,
      fetchWg = 0,
      processWg = 0,
      fetchedData = make_chan (capacity cfg),
      processedData = make_chan (capacity cfg),
      stats = \<lparr>mu = False, totalFetched = 0, totalProcessed = 0, errors = 0\<rparr>,
      printed = [],
      count = 0,
      report = None\<rparr>"

definition mk_result :: "int \<Rightarrow> APIResponse \<Rightarrow> ProcessedData" where
  "mk_result wid job =
     \<lparr>ID = wid,
      Original = Data job,
      Processed = ''PROCESSED['' @ Data job @ '']'',
      Source = APIResponse.Source job\<rparr>"

definition step_main :: "config \<Rightarrow> state \<Rightarrow> state res" where
  "step_main cfg s =
     (case mainpc s of
        MSpawnF [] \<Rightarrow> Next (s\<lparr>mainpc := MSpawnC1\<rparr>)
      | MSpawnF (src # rest) \<Rightarrow>
          bind_res (wg_Add (fetchWg s) 1) (\<lambda>n.
            Next (s\<lparr>mainpc := MSpawnF rest,
                    fetchers := fetchers s @ [(src, FFetch)],
                    fetchWg := n\<rparr>))
      | MSpawnC1 \<Rightarrow> Next (s\<lparr>mainpc := MSpawnW 1, closer1 := CWait\<rparr>)
      | MSpawnW w \<Rightarrow>
          (if w \<le> numWorkers cfg then
             bind_res (wg_Add (processWg s) 1) (\<lambda>n.
               Next (s\<lparr>mainpc := MSpawnW (w + 1),
                       workers := workers s @ [(w, WRecv)],
                       processWg := n\<rparr>))
           else Next (s\<lparr>mainpc := MSpawnC2\<rparr>))
      | MSpawnC2 \<Rightarrow> Next (s\<lparr>mainpc := MSpawnO, closer2 := CWait\<rparr>)
      | MSpawnO \<Rightarrow> Next (s\<lparr>mainpc := MWait, outp := ORecv\<rparr>)
      | MWait \<Rightarrow> Stuck
      | MPrint \<Rightarrow>
          bind_res (Print (stats s)) (\<lambda>(out, st).
            Next (s\<lparr>mainpc := MDone, stats := st, report := Some out\<rparr>))
      | MDone \<Rightarrow> Stuck)"

definition step_fetcher :: "config \<Rightarrow> nat \<Rightarrow> state \<Rightarrow> state res" where
  "step_fetcher cfg i s =
     (if length (fetchers s) \<le> i then Stuck
      else case fetchers s ! i of (src, pc) \<Rightarrow>
        (case pc of
           FFetch \<Rightarrow>
             bind_res (fetchWithTimeout src (timeout cfg) (fetchTime cfg i) (pick cfg i) (stats s))
               (\<lambda>((response, err), st).
                  case err of
                    Some e \<Rightarrow>
                      Next (s\<lparr>fetchers := (fetchers s)[i := (src, FDefer)], stats := st\<rparr>)
                  | None \<Rightarrow>
                      (case response of
                         None \<Rightarrow> Panic
                       | Some r \<Rightarrow>
                           Next (s\<lparr>fetchers := (fetchers s)[i := (src, FSend r)],
                                   stats := st\<rparr>)))
         | FSend r \<Rightarrow>
             bind_res (chan_send (fetchedData s) r) (\<lambda>c.
               Next (s\<lparr>fetchers := (fetchers s)[i := (src, FDefer)], fetchedData := c\<rparr>))
         | FDefer \<Rightarrow>
             bind_res (wg_Done (fetchWg s)) (\<lambda>n.
               Next (s\<lparr>fetchers := (fetchers s)[i := (src, FExit)], fetchWg := n\<rparr>))
         | FExit \<Rightarrow> Stuck))"

definition step_closer1 :: "state \<Rightarrow> state res" where
  "step_closer1 s =
     (case closer1 s of
        CNotStarted \<Rightarrow> Stuck
      | CWait \<Rightarrow> bind_res (wg_Wait (fetchWg s)) (\<lambda>_. Next (s\<lparr>closer1 := CClose\<rparr>))
      | CClose \<Rightarrow>
          bind_res (chan_close (fetchedData s)) (\<lambda>c.
            Next (s\<lparr>closer1 := CExit, fetchedData := c\<rparr>))
      | CExit \<Rightarrow> Stuck)"

definition step_worker :: "nat \<Rightarrow> state \<Rightarrow> state res" where
  "step_worker k s =
     (if length (workers s) \<le> k then Stuck
      else case workers s ! k of (wid, pc) \<Rightarrow>
        (case pc of
           WRecv \<Rightarrow>
             (case chan_recv (fetchedData s) of
                RBlock \<Rightarrow> Stuck
              | REnd \<Rightarrow> Next (s\<lparr>workers := (workers s)[k := (wid, WDefer)]\<rparr>)
              | RItem job c \<Rightarrow>
                  Next (s\<lparr>workers := (workers s)[k := (wid, WProcess job)],
                          fetchedData := c\<rparr>))
         | WProcess job \<Rightarrow>
             bind_res (IncrementProcessed (stats s)) (\<lambda>st.
               Next (s\<lparr>workers := (workers s)[k := (wid, WSend (mk_result wid job))],
                       stats := st\<rparr>))
         | WSend result \<Rightarrow>
             bind_res (chan_send (processedData s) result) (\<lambda>c.
               Next (s\<lparr>workers := (workers s)[k := (wid, WRecv)], processedData := c\<rparr>))
         | WDefer \<Rightarrow>
             bind_res (wg_Done (processWg s)) (\<lambda>n.
               Next (s\<lparr>workers := (workers s)[k := (wid, WExit)], processWg := n\<rparr>))
         | WExit \<Rightarrow> Stuck))"

definition step_closer2 :: "state \<Rightarrow> state res" where
  "step_closer2 s =
     (case closer2 s of
        CNotStarted \<Rightarrow> Stuck
      | CWait \<Rightarrow> bind_res (wg_Wait (processWg s)) (\<lambda>_. Next (s\<lparr>closer2 := CClose\<rparr>))
      | CClose \<Rightarrow>
          bind_res (chan_close (processedData s)) (\<lambda>c.
            Next (s\<lparr>closer2 := CExit, processedData := c\<rparr>))
      | CExit \<Rightarrow> Stuck)"

text \<open>
  \<^verbatim>\<open>done\<close> is unbuffered: the send of the output stage completes together with the
  receive of \<^verbatim>\<open>demonstrateIntegrated\<close>, in one step, which is why \<open>MWait\<close> has no step
  of its own.
\<close>

definition step_output :: "state \<Rightarrow> state res" where
  "step_output s =
     (case outp s of
        ONotStarted \<Rightarrow> Stuck
      | ORecv \<Rightarrow>
          (case chan_recv (processedData s) of
             RBlock \<Rightarrow> Stuck
           | REnd \<Rightarrow> Next (s\<lparr>outp := OSendDone\<rparr>)
           | RItem result c \<Rightarrow>
               Next (s\<lparr>processedData := c,
                       printed := printed s @ [result],
                       count := count s + 1\<rparr>))
      | OSendDone \<Rightarrow>
          (if mainpc s = MWait then Next (s\<lparr>outp := OExit, mainpc := MPrint\<rparr>) else Stuck)
      | OExit \<Rightarrow> Stuck)"

datatype gid = GMain | GFetcher nat | GCloser1 | GWorker nat | GCloser2 | GOutput

fun step :: "config \<Rightarrow> gid \<Rightarrow> state \<Rightarrow> state res" where
  "step cfg GMain s = step_main cfg s"
| "step cfg (GFetcher i) s = step_fetcher cfg i s"
| "step cfg GCloser1 s = step_closer1 s"
| "step cfg (GWorker k) s = step_worker k s"
| "step cfg GCloser2 s = step_closer2 s"
| "step cfg GOutput s = step_output s"

text \<open>A run under a schedule, the list of the goroutines that take the next step.\<close>

fun run :: "config \<Rightarrow> gid list \<Rightarrow> state \<Rightarrow> state res" where
  "run cfg [] s = Next s"
| "run cfg (g # gs) s = bind_res (step cfg g s) (run cfg gs)"

inductive reachable :: "config \<Rightarrow> state \<Rightarrow> bool" for cfg :: config where
  reach_init: "reachable cfg (init cfg)"
| reach_step: "reachable cfg s \<Longrightarrow> step cfg g s = Next s' \<Longrightarrow> reachable cfg s'"

subsection \<open>Invariants of the run\<close>

text \<open>
  \<open>cnt f xs\<close> adds up the weight \<open>f\<close> over a list; with a weight of 0 or 1 it counts
  the goroutines of a stage that are at given program counters.
\<close>

definition cnt :: "('a \<Rightarrow> int) \<Rightarrow> 'a list \<Rightarrow> int" where
  "cnt f xs = sum_list (map f xs)"

text \<open>
  How far \<^verbatim>\<open>demonstrateIntegrated\<close> has come, and the sources for which it has yet to
  start a fetch goroutine.
\<close>

fun rank :: "mpc \<Rightarrow> nat" where
  "rank (MSpawnF rest) = 0"
| "rank MSpawnC1 = 1"
| "rank (MSpawnW w) = 2"
| "rank MSpawnC2 = 3"
| "rank MSpawnO = 4"
| "rank MWait = 5"
| "rank MPrint = 6"
| "rank MDone = 7"

fun pend :: "mpc \<Rightarrow> string list" where
  "pend (MSpawnF rest) = rest"
| "pend pc = []"

text \<open>
  Weights on the goroutines: a fetch goroutine that has not yet called \<^verbatim>\<open>Done\<close>
  (\<open>fA\<close>), that has not yet fetched (\<open>fF\<close>), that holds a response to send (\<open>fS\<close>); a
  worker that has not yet called \<^verbatim>\<open>Done\<close> (\<open>wA\<close>), that holds an item to process
  (\<open>wP\<close>), that holds a result to send (\<open>wS\<close>).
\<close>

definition fA :: "string \<times> fpc \<Rightarrow> int" where
  "fA f = (case snd f of FExit \<Rightarrow> 0 | _ \<Rightarrow> 1)"

definition fF :: "string \<times> fpc \<Rightarrow> int" where
  "fF f = (case snd f of FFetch \<Rightarrow> 1 | _ \<Rightarrow> 0)"

definition fS :: "string \<times> fpc \<Rightarrow> int" where
  "fS f = (case snd f of FSend r \<Rightarrow> 1 | _ \<Rightarrow> 0)"

definition wA :: "int \<times> wpc \<Rightarrow> int" where
  "wA w = (case snd w of WExit \<Rightarrow> 0 | _ \<Rightarrow> 1)"

definition wP :: "int \<times> wpc \<Rightarrow> int" where
  "wP w = (case snd w of WProcess job \<Rightarrow> 1 | _ \<Rightarrow> 0)"

definition wS :: "int \<times> wpc \<Rightarrow> int" where
  "wS w = (case snd w of WSend r \<Rightarrow> 1 | _ \<Rightarrow> 0)"

text \<open>
  The goroutines are started in the order of the program text: a closer exists only once
  every goroutine that it waits for has been started and counted in its WaitGroup.
\<close>

definition inv_spawn :: "config \<Rightarrow> state \<Rightarrow> bool" where
  "inv_spawn cfg s \<longleftrightarrow>
     length (fetchers s) + length (pend (mainpc s)) = length (sources cfg) \<and>
     (closer1 s = CNotStarted \<longleftrightarrow> rank (mainpc s) \<le> 1) \<and>
     (rank (mainpc s) \<le> 1 \<longrightarrow> workers s = []) \<and>
     (\<forall>w. mainpc s = MSpawnW w \<longrightarrow>
        1 \<le> w \<and> int (length (workers s)) = w - 1 \<and> w \<le> max 0 (numWorkers cfg) + 1) \<and>
     (3 \<le> rank (mainpc s) \<longrightarrow> int (length (workers s)) = max 0 (numWorkers cfg)) \<and>
     (closer2 s = CNotStarted \<longleftrightarrow> rank (mainpc s) \<le> 3) \<and>
     (outp s = ONotStarted \<longleftrightarrow> rank (mainpc s) \<le> 4) \<and>
     (outp s = OExit \<longleftrightarrow> 6 \<le> rank (mainpc s))"

text \<open>
  A WaitGroup counts the goroutines of its stage that have not called \<^verbatim>\<open>Done\<close>; a
  closer that is past its \<^verbatim>\<open>Wait\<close> has seen the counter at zero, where it stays; a
  queue is closed exactly when its closer has finished.
\<close>

definition inv_wg :: "state \<Rightarrow> bool" where
  "inv_wg s \<longleftrightarrow>
     fetchWg s = cnt fA (fetchers s) \<and>
     processWg s = cnt wA (workers s) \<and>
     (closer1 s = CClose \<or> closer1 s = CExit \<longrightarrow> fetchWg s = 0) \<and>
     (closed (fetchedData s) \<longleftrightarrow> closer1 s = CExit) \<and>
     (closer2 s = CClose \<or> closer2 s = CExit \<longrightarrow> processWg s = 0) \<and>
     (closed (processedData s) \<longleftrightarrow> closer2 s = CExit)"

text \<open>A consumer that has left its \<^verbatim>\<open>range\<close> loop has seen its queue closed and empty.\<close>

definition inv_eos :: "state \<Rightarrow> bool" where
  "inv_eos s \<longleftrightarrow>
     (\<forall>k<length (workers s).
        snd (workers s ! k) = WDefer \<or> snd (workers s ! k) = WExit \<longrightarrow>
        closed (fetchedData s) \<and> buf (fetchedData s) = []) \<and>
     (outp s = OSendDone \<or> outp s = OExit \<longrightarrow>
        closed (processedData s) \<and> buf (processedData s) = [])"

text \<open>
  The mutex is free between two steps. Every fetch goroutine that has fetched has counted
  one success or one error; every success is a response held by its fetch goroutine, in
  the first queue or with a worker, or has been counted as processed; everything processed
  is a result held by its worker, in the second queue or printed.
\<close>

definition inv_stats :: "state \<Rightarrow> bool" where
  "inv_stats s \<longleftrightarrow>
     \<not> mu (stats s) \<and>
     totalFetched (stats s) + errors (stats s) + cnt fF (fetchers s)
       = int (length (fetchers s)) \<and>
     totalFetched (stats s)
       = cnt fS (fetchers s) + int (length (buf (fetchedData s)))
         + cnt wP (workers s) + totalProcessed (stats s) \<and>
     totalProcessed (stats s)
       = cnt wS (workers s) + int (length (buf (processedData s)))
         + int (length (printed s)) \<and>
     count s = int (length (printed s))"

definition inv_cap :: "config \<Rightarrow> state \<Rightarrow> bool" where
  "inv_cap cfg s \<longleftrightarrow>
     cap (fetchedData s) = capacity cfg \<and> cap (processedData s) = capacity cfg"

definition pinv :: "config \<Rightarrow> state \<Rightarrow> bool" where
  "pinv cfg s \<longleftrightarrow>
     inv_spawn cfg s \<and> inv_wg s \<and> inv_eos s \<and> inv_stats s \<and> inv_cap cfg s"


subsection \<open>Following the items through the stages\<close>

text \<open>
  \<open>tokens x s\<close> counts the places of state \<open>s\<close> that hold source \<open>x\<close>: a source not
  yet handed to a fetch goroutine, a fetch goroutine that has not yet fetched or holds the
  response, a response in the first queue, a worker that holds the item or its result, a
  result in the second queue, a printed result. No step adds a place; a timeout removes
  one. \<open>results s\<close> are the results produced so far.
\<close>

definition srcS :: "string \<Rightarrow> string \<Rightarrow> int" where
  "srcS x y = (if y = x then 1 else 0)"

definition srcF :: "string \<Rightarrow> string \<times> fpc \<Rightarrow> int" where
  "srcF x f =
     (case snd f of
        FFetch \<Rightarrow> srcS x (fst f)
      | FSend r \<Rightarrow> srcS x (APIResponse.Source r)
      | _ \<Rightarrow> 0)"

definition srcA :: "string \<Rightarrow> APIResponse \<Rightarrow> int" where
  "srcA x r = srcS x (APIResponse.Source r)"

definition srcW :: "string \<Rightarrow> int \<times> wpc \<Rightarrow> int" where
  "srcW x w =
     (case snd w of
        WProcess job \<Rightarrow> srcS x (APIResponse.Source job)
      | WSend r \<Rightarrow> srcS x (ProcessedData.Source r)
      | _ \<Rightarrow> 0)"

definition srcP :: "string \<Rightarrow> ProcessedData \<Rightarrow> int" where
  "srcP x r = srcS x (ProcessedData.Source r)"

definition held :: "int \<times> wpc \<Rightarrow> ProcessedData list" where
  "held w = (case snd w of WSend r \<Rightarrow> [r] | _ \<Rightarrow> [])"

definition results :: "state \<Rightarrow> ProcessedData list" where
  "results s = printed s @ buf (processedData s) @ concat (map held (workers s))"

definition tokens :: "string \<Rightarrow> state \<Rightarrow> int" where
  "tokens x s =
     cnt (srcS x) (pend (mainpc s)) + cnt (srcF x) (fetchers s)
     + cnt (srcA x) (buf (fetchedData s)) + cnt (srcW x) (workers s)
     + cnt (srcP x) (buf (processedData s)) + cnt (srcP x) (printed s)"

definition inv_items :: "config \<Rightarrow> state \<Rightarrow> bool" where
  "inv_items cfg s \<longleftrightarrow>
     map fst (fetchers s) @ pend (mainpc s) = sources cfg \<and>
     (\<forall>x. tokens x s \<le> cnt (srcS x) (sources cfg))"

definition inv_report :: "config \<Rightarrow> state \<Rightarrow> bool" where
  "inv_report cfg s \<longleftrightarrow>
     (mainpc s = MDone \<longrightarrow> report s \<noteq> None) \<and>
     (case report s of
        None \<Rightarrow> True
      | Some (f, p, e) \<Rightarrow>
          1 \<le> numWorkers cfg \<longrightarrow> f + e = int (length (sources cfg)) \<and> p = f)"

subsection \<open>A measure of the work left\<close>

text \<open>
  Weights on program counters and queued items, chosen so that every step of every
  goroutine lowers the sum: an item weighs more in the first queue than in the second,
  and a worker that takes an item gains less weight than the queue loses.
\<close>

fun wM :: "config \<Rightarrow> mpc \<Rightarrow> int" where
  "wM cfg (MSpawnF rest) = 13 + 3 * max 0 (numWorkers cfg) + 8 * int (length rest)"
| "wM cfg MSpawnC1 = 12 + 3 * max 0 (numWorkers cfg)"
| "wM cfg (MSpawnW w) = 9 + 3 * max 0 (numWorkers cfg + 1 - w)"
| "wM cfg MSpawnC2 = 8"
| "wM cfg MSpawnO = 5"
| "wM cfg MWait = 2"
| "wM cfg MPrint = 1"
| "wM cfg MDone = 0"

definition wF :: "string \<times> fpc \<Rightarrow> int" where
  "wF f = (case snd f of FFetch \<Rightarrow> 7 | FSend r \<Rightarrow> 6 | FDefer \<Rightarrow> 1 | FExit \<Rightarrow> 0)"

definition wW :: "int \<times> wpc \<Rightarrow> int" where
  "wW w = (case snd w of
             WRecv \<Rightarrow> 2 | WProcess job \<Rightarrow> 5 | WSend r \<Rightarrow> 4 | WDefer \<Rightarrow> 1 | WExit \<Rightarrow> 0)"

fun wC :: "cpc \<Rightarrow> int" where
  "wC CNotStarted = 3"
| "wC CWait = 2"
| "wC CClose = 1"
| "wC CExit = 0"

fun wO :: "opc \<Rightarrow> int" where
  "wO ONotStarted = 3"
| "wO ORecv = 2"
| "wO OSendDone = 1"
| "wO OExit = 0"

definition work_left :: "config \<Rightarrow> state \<Rightarrow> int" where
  "work_left cfg s =
     wM cfg (mainpc s) + cnt wF (fetchers s) + 4 * int (length (buf (fetchedData s)))
     + wC (closer1 s) + cnt wW (workers s) + int (length (buf (processedData s)))
     + wC (closer2 s) + wO (outp s)"

definition run_bound :: "config \<Rightarrow> int" where
  "run_bound cfg = 22 + 3 * max 0 (numWorkers cfg) + 8 * int (length (sources cfg))"
subsection \<open>What the caller of fetchWithTimeout is told\<close>

text \<open>
  The caller of \<^verbatim>\<open>fetchWithTimeout\<close> reads a success from a non-nil response and an
  error from a non-nil error, the timeout being the error with the message of the third
  \<^verbatim>\<open>select\<close> branch. \<open>reported\<close> lists the outcomes that a returned pair reports.
\<close>

datatype outcome = Success APIResponse | TimeoutError | UnderlyingError string

definition reported :: "string \<Rightarrow> APIResponse option \<times> string option \<Rightarrow> outcome list" where
  "reported source res =
     (case fst res of Some r \<Rightarrow> [Success r] | None \<Rightarrow> []) @
     (case snd res of
        Some e \<Rightarrow> [if e = timeout_error source then TimeoutError else UnderlyingError e]
      | None \<Rightarrow> [])"

subsection \<open>Concrete runs\<close>

text \<open>
  The program as it is written (five sources, three workers, a timeout of one second,
  queues of capacity five), with fetch times of 100 to 500 milliseconds, under a schedule
  that runs the stages one after the other; and three states on the way.
\<close>

definition demo_config :: config where
  "demo_config = integrated_config (\<lambda>i. 100 + 100 * int i) (\<lambda>i. 0)"

definition demo_schedule :: "gid list" where
  "demo_schedule =
     replicate 13 GMain @
     concat (map (\<lambda>i. replicate 3 (GFetcher i)) [0, 1, 2, 3, 4]) @
     replicate 2 GCloser1 @
     concat (map (\<lambda>k. replicate 3 (GWorker k)) [0, 1, 2, 0, 1]) @
     concat (map (\<lambda>k. replicate 2 (GWorker k)) [0, 1, 2]) @
     replicate 2 GCloser2 @
     replicate 7 GOutput @
     [GMain]"

definition demo_final :: state where
  "demo_final =
     \<lparr>mainpc = MDone,
      fetchers =
        [(''API-1'', FExit), (''API-2'', FExit), (''API-3'', FExit),
         (''API-4'', FExit), (''API-5'', FExit)],
      closer1 = CExit, workers = [(1, WExit), (2, WExit), (3, WExit)],
      closer2 = CExit, outp = OExit, fetchWg = 0, processWg = 0,
      fetchedData = \<lparr>buf = [], cap = 5, closed = True\<rparr>,
      processedData = \<lparr>buf = [], cap = 5, closed = True\<rparr>,
      stats = \<lparr>mu = False, totalFetched = 5, totalProcessed = 5, errors = 0\<rparr>,
      printed =
        [\<lparr>ID = 1, Original = ''data-from-API-1'',
            Processed = ''PROCESSED[data-from-API-1]'', Source = ''API-1''\<rparr>,
         \<lparr>ID = 2, Original = ''data-from-API-2'',
            Processed = ''PROCESSED[data-from-API-2]'', Source = ''API-2''\<rparr>,
         \<lparr>ID = 3, Original = ''data-from-API-3'',
            Processed = ''PROCESSED[data-from-API-3]'', Source = ''API-3''\<rparr>,
         \<lparr>ID = 1, Original = ''data-from-API-4'',
            Processed = ''PROCESSED[data-from-API-4]'', Source = ''API-4''\<rparr>,
         \<lparr>ID = 2, Original = ''data-from-API-5'',
            Processed = ''PROCESSED[data-from-API-5]'', Source = ''API-5''\<rparr>],
      count = 5, report = Some (5, 5, 0)\<rparr>"

text \<open>After the 14th step: everything is started and the first fetch has its response.\<close>

definition demo_sending :: state where
  "demo_sending =
     \<lparr>mainpc = MWait,
      fetchers =
        [(''API-1'',
          FSend \<lparr>APIResponse.Source = ''API-1'', Data = ''data-from-API-1'', Time = 100\<rparr>),
         (''API-2'', FFetch), (''API-3'', FFetch), (''API-4'', FFetch), (''API-5'', FFetch)],
      closer1 = CWait, workers = [(1, WRecv), (2, WRecv), (3, WRecv)],
      closer2 = CWait, outp = ORecv, fetchWg = 5, processWg = 3,
      fetchedData = \<lparr>buf = [], cap = 5, closed = False\<rparr>,
      processedData = \<lparr>buf = [], cap = 5, closed = False\<rparr>,
      stats = \<lparr>mu = False, totalFetched = 1, totalProcessed = 0, errors = 0\<rparr>,
      printed = [], count = 0, report = None\<rparr>"

text \<open>After the 31st step: the first worker holds the first item.\<close>

definition demo_processing :: state where
  "demo_processing =
     \<lparr>mainpc = MWait,
      fetchers =
        [(''API-1'', FExit), (''API-2'', FExit), (''API-3'', FExit),
         (''API-4'', FExit), (''API-5'', FExit)],
      closer1 = CExit,
      workers =
        [(1, WProcess
               \<lparr>APIResponse.Source = ''API-1'', Data = ''data-from-API-1'', Time = 100\<rparr>),
         (2, WRecv), (3, WRecv)],
      closer2 = CWait, outp = ORecv, fetchWg = 0, processWg = 3,
      fetchedData =
        \<lparr>buf =
           [\<lparr>APIResponse.Source = ''API-2'', Data = ''data-from-API-2'', Time = 200\<rparr>,
            \<lparr>APIResponse.Source = ''API-3'', Data = ''data-from-API-3'', Time = 300\<rparr>,
            \<lparr>APIResponse.Source = ''API-4'', Data = ''data-from-API-4'', Time = 400\<rparr>,
            \<lparr>APIResponse.Source = ''API-5'', Data = ''data-from-API-5'', Time = 500\<rparr>],
         cap = 5, closed = True\<rparr>,
      processedData = \<lparr>buf = [], cap = 5, closed = False\<rparr>,
      stats = \<lparr>mu = False, totalFetched = 5, totalProcessed = 0, errors = 0\<rparr>,
      printed = [], count = 0, report = None\<rparr>"

text \<open>
  Two sources and one worker with a timeout of 500 milliseconds: the first fetch takes
  300 milliseconds, the second 700 and times out. The schedule interleaves the stages.
\<close>

definition timeout_config :: config where
  "timeout_config =
     \<lparr>sources = [''API-1'', ''API-2''],
      numWorkers = 1,
      timeout = 500,
      capacity = 2,
      fetchTime = (\<lambda>i. if i = 0 then 300 else 700),
      pick = (\<lambda>i. 0)\<rparr>"

definition timeout_schedule :: "gid list" where
  "timeout_schedule =
     [GMain, GMain, GMain, GFetcher 1, GMain, GFetcher 0, GMain, GMain, GFetcher 0,
      GWorker 0, GMain, GFetcher 1, GWorker 0, GMain, GFetcher 0, GCloser1, GCloser1,
      GWorker 0, GOutput, GWorker 0, GWorker 0, GCloser2, GCloser2, GOutput, GOutput,
      GMain]"

definition timeout_final :: state where
  "timeout_final =
     \<lparr>mainpc = MDone, fetchers = [(''API-1'', FExit), (''API-2'', FExit)],
      closer1 = CExit, workers = [(1, WExit)], closer2 = CExit, outp = OExit,
      fetchWg = 0, processWg = 0,
      fetchedData = \<lparr>buf = [], cap = 2, closed = True\<rparr>,
      processedData = \<lparr>buf = [], cap = 2, closed = True\<rparr>,
      stats = \<lparr>mu = False, totalFetched = 1, totalProcessed = 1, errors = 1\<rparr>,
      printed =
        [\<lparr>ID = 1, Original = ''data-from-API-1'',
            Processed = ''PROCESSED[data-from-API-1]'', Source = ''API-1''\<rparr>],
      count = 1, report = Some (1, 1, 1)\<rparr>"

text \<open>
  One source and no worker. The program cannot do this run, since it fixes
  \<^verbatim>\<open>numWorkers\<close> at 3; in the model it shows why the statements about the end of a
  run ask for a worker: with none, the second closer finds its WaitGroup at zero and the
  statistics are printed, here before the one fetch has run.
\<close>

definition zero_workers_config :: config where
  "zero_workers_config =
     \<lparr>sources = [''API-1''],
      numWorkers = 0,
      timeout = 1000,
      capacity = 1,
      fetchTime = (\<lambda>i. 100),
      pick = (\<lambda>i. 0)\<rparr>"

definition zero_workers_schedule :: "gid list" where
  "zero_workers_schedule =
     [GMain, GMain, GMain, GMain, GMain, GMain, GCloser2, GCloser2, GOutput, GOutput, GMain]"

definition zero_workers_final :: state where
  "zero_workers_final =
     \<lparr>mainpc = MDone, fetchers = [(''API-1'', FFetch)], closer1 = CWait,
      workers = [], closer2 = CExit, outp = OExit, fetchWg = 1, processWg = 0,
      fetchedData = \<lparr>buf = [], cap = 1, closed = False\<rparr>,
      processedData = \<lparr>buf = [], cap = 1, closed = True\<rparr>,
      stats = \<lparr>mu = False, totalFetched = 0, totalProcessed = 0, errors = 0\<rparr>,
      printed = [], count = 0, report = Some (0, 0, 0)\<rparr>"

subsection \<open>processingWorker on its own\<close>



subsection \<open>The statistics under concurrent callers\<close>

text \<open>
  The methods of \<^verbatim>\<open>Stats\<close> statement by statement, for callers that run
  concurrently. A caller is about to lock the mutex; or it holds the mutex and is about
  to increment its counter, or to read, one after the other, the three arguments of the
  \<^verbatim>\<open>Printf\<close> of \<^verbatim>\<open>Print\<close>; or it is about to run the deferred \<^verbatim>\<open>Unlock\<close>; or
  it has returned. A snapshot carries the values it has read so far.
\<close>

datatype counter = CountFetched | CountProcessed | CountErrors

datatype stats_call = Increment counter | Snapshot

datatype tpc =
    AtLock stats_call
  | AtIncrement counter
  | AtReadFetched
  | AtReadProcessed int
  | AtReadErrors int int
  | AtUnlock "(int \<times> int \<times> int) option"
  | Returned "(int \<times> int \<times> int) option"

definition bump :: "counter \<Rightarrow> Stats \<Rightarrow> Stats" where
  "bump c st =
     (case c of
        CountFetched \<Rightarrow> st\<lparr>totalFetched := totalFetched st + 1\<rparr>
      | CountProcessed \<Rightarrow> st\<lparr>totalProcessed := totalProcessed st + 1\<rparr>
      | CountErrors \<Rightarrow> st\<lparr>errors := errors st + 1\<rparr>)"

definition call_step :: "tpc \<Rightarrow> Stats \<Rightarrow> (tpc \<times> Stats) res" where
  "call_step pc st =
     (case pc of
        AtLock m \<Rightarrow>
          bind_res (Lock st) (\<lambda>st'.
            Next ((case m of Increment c \<Rightarrow> AtIncrement c | Snapshot \<Rightarrow> AtReadFetched), st'))
      | AtIncrement c \<Rightarrow> Next (AtUnlock None, bump c st)
      | AtReadFetched \<Rightarrow> Next (AtReadProcessed (totalFetched st), st)
      | AtReadProcessed f \<Rightarrow> Next (AtReadErrors f (totalProcessed st), st)
      | AtReadErrors f p \<Rightarrow> Next (AtUnlock (Some (f, p, errors st)), st)
      | AtUnlock out \<Rightarrow> bind_res (Unlock st) (\<lambda>st'. Next (Returned out, st'))
      | Returned out \<Rightarrow> Stuck)"

text \<open>A call that runs alone: \<open>n\<close> statements without another caller in between.\<close>

fun call_run :: "nat \<Rightarrow> tpc \<Rightarrow> Stats \<Rightarrow> (tpc \<times> Stats) res" where
  "call_run 0 pc st = Next (pc, st)"
| "call_run (Suc n) pc st = bind_res (call_step pc st) (\<lambda>(pc', st'). call_run n pc' st')"

definition snapshot_alone :: "Stats \<Rightarrow> ((int \<times> int \<times> int) \<times> Stats) res" where
  "snapshot_alone st =
     bind_res (call_run 5 (AtLock Snapshot) st) (\<lambda>(pc, st').
       case pc of Returned (Some t) \<Rightarrow> Next (t, st') | _ \<Rightarrow> Stuck)"

definition increment_alone :: "counter \<Rightarrow> Stats \<Rightarrow> Stats res" where
  "increment_alone c st =
     bind_res (call_run 3 (AtLock (Increment c)) st) (\<lambda>(pc, st').
       case pc of Returned None \<Rightarrow> Next st' | _ \<Rightarrow> Stuck)"

text \<open>
  Any number of callers on one \<^verbatim>\<open>Stats\<close>: a step is one statement of one caller.
\<close>

definition stats_step :: "nat \<Rightarrow> Stats \<times> tpc list \<Rightarrow> (Stats \<times> tpc list) res" where
  "stats_step i sts =
     (case sts of (st, ts) \<Rightarrow>
        if length ts \<le> i then Stuck
        else bind_res (call_step (ts ! i) st) (\<lambda>(pc, st'). Next (st', ts[i := pc])))"

fun stats_run :: "nat list \<Rightarrow> Stats \<times> tpc list \<Rightarrow> (Stats \<times> tpc list) res" where
  "stats_run [] sts = Next sts"
| "stats_run (i # is) sts = bind_res (stats_step i sts) (stats_run is)"

inductive stats_reachable :: "Stats \<Rightarrow> stats_call list \<Rightarrow> Stats \<times> tpc list \<Rightarrow> bool"
  for st0 :: Stats and ms :: "stats_call list" where
  stats_init: "stats_reachable st0 ms (st0, map AtLock ms)"
| stats_next: "stats_reachable st0 ms sts \<Longrightarrow> stats_step i sts = Next sts' \<Longrightarrow>
     stats_reachable st0 ms sts'"

definition counters :: "Stats \<Rightarrow> int \<times> int \<times> int" where
  "counters st = (totalFetched st, totalProcessed st, errors st)"

text \<open>
  A caller that holds the mutex, a caller inside the critical section of a snapshot, and
  what such a caller has read against the statistics as they are.
\<close>

definition holding :: "tpc \<Rightarrow> int" where
  "holding pc = (case pc of AtLock m \<Rightarrow> 0 | Returned out \<Rightarrow> 0 | _ \<Rightarrow> 1)"

definition in_snapshot :: "tpc \<Rightarrow> bool" where
  "in_snapshot pc =
     (case pc of
        AtReadFetched \<Rightarrow> True
      | AtReadProcessed f \<Rightarrow> True
      | AtReadErrors f p \<Rightarrow> True
      | AtUnlock (Some t) \<Rightarrow> True
      | _ \<Rightarrow> False)"

definition read_so_far :: "Stats \<Rightarrow> tpc \<Rightarrow> bool" where
  "read_so_far st pc =
     (case pc of
        AtReadProcessed f \<Rightarrow> f = totalFetched st
      | AtReadErrors f p \<Rightarrow> f = totalFetched st \<and> p = totalProcessed st
      | AtUnlock (Some t) \<Rightarrow> t = counters st
      | _ \<Rightarrow> True)"

definition inv_mutex :: "Stats \<times> tpc list \<Rightarrow> bool" where
  "inv_mutex sts =
     (case sts of (st, ts) \<Rightarrow>
        cnt holding ts = (if mu st then 1 else 0) \<and>
        (\<forall>i<length ts. read_so_far st (ts ! i)))"

text \<open>
  Three callers on the statistics of \<open>demo_sending\<close>: a snapshot and two increments.
  The first increment has run to its end; the snapshot has then locked the mutex and read
  two of its three values; the second increment waits for the mutex.
\<close>

definition stats_callers :: "stats_call list" where
  "stats_callers = [Snapshot, Increment CountFetched, Increment CountErrors]"

definition stats_midway :: "Stats \<times> tpc list" where
  "stats_midway =
     (\<lparr>mu = True, totalFetched = 2, totalProcessed = 0, errors = 0\<rparr>,
      [AtReadErrors 2 0, Returned None, AtLock (Increment CountErrors)])"

section \<open>Basic facts\<close>

lemmas weight_defs = fA_def fF_def fS_def wA_def wP_def wS_def

lemma Increment_free:
  "\<not> mu s \<Longrightarrow> IncrementFetched s = Next (s\<lparr>totalFetched := totalFetched s + 1\<rparr>)"
  "\<not> mu s \<Longrightarrow> IncrementProcessed s = Next (s\<lparr>totalProcessed := totalProcessed s + 1\<rparr>)"
  "\<not> mu s \<Longrightarrow> IncrementErrors s = Next (s\<lparr>errors := errors s + 1\<rparr>)"
  by (simp_all add: IncrementFetched_def IncrementProcessed_def IncrementErrors_def
      Lock_def Unlock_def bind_res_def)

lemma Print_free:
  "\<not> mu s \<Longrightarrow> Print s = Next ((totalFetched s, totalProcessed s, errors s), s)"
  by (simp add: Print_def Lock_def Unlock_def bind_res_def)

lemma held_blocks:
  "mu s \<Longrightarrow> IncrementFetched s = Stuck \<and> IncrementProcessed s = Stuck \<and> IncrementErrors s = Stuck \<and> Print s = Stuck"
  by (simp add: IncrementFetched_def IncrementProcessed_def IncrementErrors_def Print_def
      Lock_def bind_res_def)

lemma ready_cases_wake:
  "ready_cases source ft tmo (wake ft tmo) =
     (if max 0 ft \<le> max 0 tmo then [GotResponse (mk_response source ft)] else []) @
     (if max 0 tmo \<le> max 0 ft then [GotTimeout] else [])"
  by (simp add: ready_cases_def wake_def responseChan_at_def errorChan_at_def timer_at_def)

lemma select_fetch_cases:
  "select_fetch source ft tmo pk = Next (GotResponse (mk_response source ft)) \<and> max 0 ft \<le> max 0 tmo
   \<or> select_fetch source ft tmo pk = Next GotTimeout \<and> max 0 tmo \<le> max 0 ft"
  by (auto simp: select_fetch_def ready_cases_wake Let_def nth_Cons' )

lemma fetchWithTimeout_cases:
  assumes "\<not> mu st"
  shows "fetchWithTimeout source tmo ft pk st =
           Next ((Some (mk_response source ft), None), st\<lparr>totalFetched := totalFetched st + 1\<rparr>)
         \<and> select_fetch source ft tmo pk = Next (GotResponse (mk_response source ft))
         \<and> max 0 ft \<le> max 0 tmo
       \<or> fetchWithTimeout source tmo ft pk st =
           Next ((None, Some (timeout_error source)), st\<lparr>errors := errors st + 1\<rparr>)
         \<and> select_fetch source ft tmo pk = Next GotTimeout
         \<and> max 0 tmo \<le> max 0 ft"
  using select_fetch_cases[of source ft tmo pk] assms
  by (auto simp: fetchWithTimeout_def bind_res_def Increment_free)

lemma cnt_Nil [simp]: "cnt f [] = 0"
  by (simp add: cnt_def)

lemma cnt_Cons [simp]: "cnt f (x # xs) = f x + cnt f xs"
  by (simp add: cnt_def)

lemma cnt_append [simp]: "cnt f (xs @ ys) = cnt f xs + cnt f ys"
  by (simp add: cnt_def)

lemma cnt_update:
  "i < length xs \<Longrightarrow> cnt f (xs[i := y]) = cnt f xs + f y - f (xs ! i)"
proof (induction xs arbitrary: i)
  case Nil
  then show ?case by simp
next
  case (Cons x xs)
  then show ?case by (cases i) auto
qed

lemma cnt_nonneg: "(\<And>x. 0 \<le> f x) \<Longrightarrow> 0 \<le> cnt f xs"
  by (induction xs) (auto simp: add_nonneg_nonneg)

lemma cnt_mono: "(\<And>x. f x \<le> g x) \<Longrightarrow> cnt f xs \<le> cnt g xs"
  by (induction xs) (auto simp: add_mono)

lemma cnt_nth_le: "(\<And>x. 0 \<le> f x) \<Longrightarrow> i < length xs \<Longrightarrow> f (xs ! i) \<le> cnt f xs"
proof (induction xs arbitrary: i)
  case Nil
  then show ?case by simp
next
  case (Cons x xs)
  show ?case
  proof (cases i)
    case 0
    then show ?thesis using cnt_nonneg[of f xs] Cons.prems(1) by simp
  next
    case (Suc j)
    then show ?thesis using Cons.IH[of j] Cons.prems by (simp add: add_increasing)
  qed
qed

lemma cnt_pos_ex: "cnt f xs \<noteq> 0 \<Longrightarrow> \<exists>i<length xs. f (xs ! i) \<noteq> 0"
proof (induction xs)
  case Nil
  then show ?case by simp
next
  case (Cons x xs)
  show ?case
  proof (cases "f x = 0")
    case True
    with Cons obtain i where "i < length xs" "f (xs ! i) \<noteq> 0" by auto
    then have "Suc i < length (x # xs) \<and> f ((x # xs) ! Suc i) \<noteq> 0" by simp
    then show ?thesis by blast
  next
    case False
    then have "0 < length (x # xs) \<and> f ((x # xs) ! 0) \<noteq> 0" by simp
    then show ?thesis by blast
  qed
qed

lemma Increment_Next:
  "IncrementFetched st = Next st' \<longleftrightarrow> \<not> mu st \<and> st' = st\<lparr>totalFetched := totalFetched st + 1\<rparr>"
  "IncrementProcessed st = Next st' \<longleftrightarrow> \<not> mu st \<and> st' = st\<lparr>totalProcessed := totalProcessed st + 1\<rparr>"
  "IncrementErrors st = Next st' \<longleftrightarrow> \<not> mu st \<and> st' = st\<lparr>errors := errors st + 1\<rparr>"
  by (auto simp: IncrementFetched_def IncrementProcessed_def IncrementErrors_def
      Lock_def Unlock_def bind_res_def)

lemma Print_Next:
  "Print st = Next (out, st') \<longleftrightarrow>
     \<not> mu st \<and> out = (totalFetched st, totalProcessed st, errors st) \<and> st' = st"
  by (auto simp: Print_def Lock_def Unlock_def bind_res_def)

lemma fetchWithTimeout_Next:
  assumes "fetchWithTimeout source tmo ft pk st = Next ((response, err), st')"
  shows "\<not> mu st \<and>
         (response = Some (mk_response source ft) \<and> err = None \<and>
            st' = st\<lparr>totalFetched := totalFetched st + 1\<rparr>
          \<or> response = None \<and> err = Some (timeout_error source) \<and>
            st' = st\<lparr>errors := errors st + 1\<rparr>)"
proof (cases "mu st")
  case True
  then show ?thesis
    using assms select_fetch_cases[of source ft tmo pk] held_blocks[of st]
    by (auto simp: fetchWithTimeout_def bind_res_def)
next
  case False
  then show ?thesis
    using assms fetchWithTimeout_cases[of st source tmo ft pk] by auto
qed

lemma step_cases [consumes 1, case_names spawnF_end spawnF spawnC1 spawnW spawnW_end spawnC2
    spawnO print fetch_ok fetch_timeout fsend fdone c1wait c1close wrecv wend wprocess wsend
    wdone c2wait c2close orecv oend odone]:
  assumes "step cfg g s = Next s'"
  obtains
    "g = GMain" "mainpc s = MSpawnF []" "s' = s\<lparr>mainpc := MSpawnC1\<rparr>"
  | src rest where "g = GMain" "mainpc s = MSpawnF (src # rest)" "0 \<le> fetchWg s + 1"
      "s' = s\<lparr>mainpc := MSpawnF rest, fetchers := fetchers s @ [(src, FFetch)],
               fetchWg := fetchWg s + 1\<rparr>"
  | "g = GMain" "mainpc s = MSpawnC1" "s' = s\<lparr>mainpc := MSpawnW 1, closer1 := CWait\<rparr>"
  | w where "g = GMain" "mainpc s = MSpawnW w" "w \<le> numWorkers cfg" "0 \<le> processWg s + 1"
      "s' = s\<lparr>mainpc := MSpawnW (w + 1), workers := workers s @ [(w, WRecv)],
               processWg := processWg s + 1\<rparr>"
  | w where "g = GMain" "mainpc s = MSpawnW w" "\<not> w \<le> numWorkers cfg"
      "s' = s\<lparr>mainpc := MSpawnC2\<rparr>"
  | "g = GMain" "mainpc s = MSpawnC2" "s' = s\<lparr>mainpc := MSpawnO, closer2 := CWait\<rparr>"
  | "g = GMain" "mainpc s = MSpawnO" "s' = s\<lparr>mainpc := MWait, outp := ORecv\<rparr>"
  | "g = GMain" "mainpc s = MPrint" "\<not> mu (stats s)"
      "s' = s\<lparr>mainpc := MDone, stats := stats s,
               report := Some (totalFetched (stats s), totalProcessed (stats s), errors (stats s))\<rparr>"
  | i src where "g = GFetcher i" "i < length (fetchers s)" "fetchers s ! i = (src, FFetch)"
      "\<not> mu (stats s)"
      "s' = s\<lparr>fetchers := (fetchers s)[i := (src, FSend (mk_response src (fetchTime cfg i)))],
               stats := (stats s)\<lparr>totalFetched := totalFetched (stats s) + 1\<rparr>\<rparr>"
  | i src where "g = GFetcher i" "i < length (fetchers s)" "fetchers s ! i = (src, FFetch)"
      "\<not> mu (stats s)"
      "s' = s\<lparr>fetchers := (fetchers s)[i := (src, FDefer)],
               stats := (stats s)\<lparr>errors := errors (stats s) + 1\<rparr>\<rparr>"
  | i src r where "g = GFetcher i" "i < length (fetchers s)" "fetchers s ! i = (src, FSend r)"
      "\<not> closed (fetchedData s)" "length (buf (fetchedData s)) < cap (fetchedData s)"
      "s' = s\<lparr>fetchers := (fetchers s)[i := (src, FDefer)],
               fetchedData := (fetchedData s)\<lparr>buf := buf (fetchedData s) @ [r]\<rparr>\<rparr>"
  | i src where "g = GFetcher i" "i < length (fetchers s)" "fetchers s ! i = (src, FDefer)"
      "0 \<le> fetchWg s - 1"
      "s' = s\<lparr>fetchers := (fetchers s)[i := (src, FExit)], fetchWg := fetchWg s - 1\<rparr>"
  | "g = GCloser1" "closer1 s = CWait" "fetchWg s = 0" "s' = s\<lparr>closer1 := CClose\<rparr>"
  | "g = GCloser1" "closer1 s = CClose" "\<not> closed (fetchedData s)"
      "s' = s\<lparr>closer1 := CExit, fetchedData := (fetchedData s)\<lparr>closed := True\<rparr>\<rparr>"
  | k wid job rest where "g = GWorker k" "k < length (workers s)" "workers s ! k = (wid, WRecv)"
      "buf (fetchedData s) = job # rest"
      "s' = s\<lparr>workers := (workers s)[k := (wid, WProcess job)],
               fetchedData := (fetchedData s)\<lparr>buf := rest\<rparr>\<rparr>"
  | k wid where "g = GWorker k" "k < length (workers s)" "workers s ! k = (wid, WRecv)"
      "buf (fetchedData s) = []" "closed (fetchedData s)"
      "s' = s\<lparr>workers := (workers s)[k := (wid, WDefer)]\<rparr>"
  | k wid job where "g = GWorker k" "k < length (workers s)"
      "workers s ! k = (wid, WProcess job)" "\<not> mu (stats s)"
      "s' = s\<lparr>workers := (workers s)[k := (wid, WSend (mk_result wid job))],
               stats := (stats s)\<lparr>totalProcessed := totalProcessed (stats s) + 1\<rparr>\<rparr>"
  | k wid result where "g = GWorker k" "k < length (workers s)"
      "workers s ! k = (wid, WSend result)"
      "\<not> closed (processedData s)" "length (buf (processedData s)) < cap (processedData s)"
      "s' = s\<lparr>workers := (workers s)[k := (wid, WRecv)],
               processedData := (processedData s)\<lparr>buf := buf (processedData s) @ [result]\<rparr>\<rparr>"
  | k wid where "g = GWorker k" "k < length (workers s)" "workers s ! k = (wid, WDefer)"
      "0 \<le> processWg s - 1"
      "s' = s\<lparr>workers := (workers s)[k := (wid, WExit)], processWg := processWg s - 1\<rparr>"
  | "g = GCloser2" "closer2 s = CWait" "processWg s = 0" "s' = s\<lparr>closer2 := CClose\<rparr>"
  | "g = GCloser2" "closer2 s = CClose" "\<not> closed (processedData s)"
      "s' = s\<lparr>closer2 := CExit, processedData := (processedData s)\<lparr>closed := True\<rparr>\<rparr>"
  | result rest where "g = GOutput" "outp s = ORecv" "buf (processedData s) = result # rest"
      "s' = s\<lparr>processedData := (processedData s)\<lparr>buf := rest\<rparr>,
               printed := printed s @ [result], count := count s + 1\<rparr>"
  | "g = GOutput" "outp s = ORecv" "buf (processedData s) = []" "closed (processedData s)"
      "s' = s\<lparr>outp := OSendDone\<rparr>"
  | "g = GOutput" "outp s = OSendDone" "mainpc s = MWait"
      "s' = s\<lparr>outp := OExit, mainpc := MPrint\<rparr>"
proof (cases g)
  case GMain
  with assms have "step_main cfg s = Next s'" by simp
  then show ?thesis using GMain that(1-8)
    by (auto simp: step_main_def bind_res_def wg_Add_def Print_Next
        split: mpc.splits list.splits if_splits res.splits prod.splits)
next
  case (GFetcher i)
  with assms have st: "step_fetcher cfg i s = Next s'" by simp
  then have i: "i < length (fetchers s)"
    by (auto simp: step_fetcher_def split: if_splits)
  obtain src pc where f: "fetchers s ! i = (src, pc)" by (cases "fetchers s ! i")
  show ?thesis
  proof (cases pc)
    case FFetch
    with st i f obtain response err st' where
      fw: "fetchWithTimeout src (timeout cfg) (fetchTime cfg i) (pick cfg i) (stats s)
             = Next ((response, err), st')"
      by (auto simp: step_fetcher_def bind_res_def split: res.splits)
    from fetchWithTimeout_Next[OF fw] st i f FFetch fw GFetcher that(9,10) show ?thesis
      by (auto simp: step_fetcher_def bind_res_def)
  next
    case (FSend r)
    with st i f GFetcher that(11) show ?thesis
      by (auto simp: step_fetcher_def bind_res_def chan_send_def split: if_splits)
  next
    case FDefer
    with st i f GFetcher that(12) show ?thesis
      by (auto simp: step_fetcher_def bind_res_def wg_Done_def wg_Add_def split: if_splits)
  next
    case FExit
    with st i f show ?thesis by (auto simp: step_fetcher_def)
  qed
next
  case GCloser1
  with assms have "step_closer1 s = Next s'" by simp
  then show ?thesis using GCloser1 that(13,14)
    by (auto simp: step_closer1_def bind_res_def wg_Wait_def chan_close_def
        split: cpc.splits if_splits)
next
  case (GWorker k)
  with assms have st: "step_worker k s = Next s'" by simp
  then have k: "k < length (workers s)"
    by (auto simp: step_worker_def split: if_splits)
  obtain wid pc where w: "workers s ! k = (wid, pc)" by (cases "workers s ! k")
  show ?thesis
  proof (cases pc)
    case WRecv
    with st k w GWorker that(15,16) show ?thesis
      by (auto simp: step_worker_def chan_recv_def split: list.splits if_splits)
  next
    case (WProcess job)
    with st k w GWorker that(17) show ?thesis
      by (auto simp: step_worker_def bind_res_def Increment_Next split: res.splits)
  next
    case (WSend result)
    with st k w GWorker that(18) show ?thesis
      by (auto simp: step_worker_def bind_res_def chan_send_def split: if_splits)
  next
    case WDefer
    with st k w GWorker that(19) show ?thesis
      by (auto simp: step_worker_def bind_res_def wg_Done_def wg_Add_def split: if_splits)
  next
    case WExit
    with st k w show ?thesis by (auto simp: step_worker_def)
  qed
next
  case GCloser2
  with assms have "step_closer2 s = Next s'" by simp
  then show ?thesis using GCloser2 that(20,21)
    by (auto simp: step_closer2_def bind_res_def wg_Wait_def chan_close_def
        split: cpc.splits if_splits)
next
  case GOutput
  with assms have "step_output s = Next s'" by simp
  then show ?thesis using GOutput that(22-24)
    by (auto simp: step_output_def chan_recv_def split: opc.splits list.splits if_splits)
qed

section \<open>Invariants of the pipeline\<close>

lemma inv_init: "pinv cfg (init cfg)"
  by (simp add: pinv_def inv_spawn_def inv_wg_def inv_eos_def inv_stats_def inv_cap_def
      init_def make_chan_def)


lemma spawn_not_started:
  assumes "inv_spawn cfg s"
  shows "rank (mainpc s) \<le> 1 \<longrightarrow> closer1 s = CNotStarted"
    and "rank (mainpc s) \<le> 3 \<longrightarrow> closer2 s = CNotStarted"
  using assms by (simp_all add: inv_spawn_def)

lemma inv_spawn_step:
  assumes "inv_spawn cfg s" and "step cfg g s = Next s'"
  shows "inv_spawn cfg s'"
  using assms(2,1)
  by (cases rule: step_cases) ((clarsimp simp: inv_spawn_def)?; linarith?)+

lemma inv_wg_step:
  assumes "inv_spawn cfg s" and "inv_wg s" and "step cfg g s = Next s'"
  shows "inv_wg s'"
  using assms(3,2) spawn_not_started[OF assms(1)]
  by (cases rule: step_cases) (clarsimp simp: inv_wg_def cnt_update weight_defs)+

lemma inv_eos_step:
  assumes "inv_wg s" and "inv_eos s" and "step cfg g s = Next s'"
  shows "inv_eos s'"
  using assms(3,1,2)
  by (cases rule: step_cases)
    ((clarsimp simp: inv_wg_def inv_eos_def nth_list_update nth_append)?; fastforce?)+

lemma inv_stats_step:
  assumes "inv_stats s" and "step cfg g s = Next s'"
  shows "inv_stats s'"
  using assms(2,1)
  by (cases rule: step_cases) (clarsimp simp: inv_stats_def cnt_update weight_defs)+

lemma inv_cap_step:
  assumes "inv_cap cfg s" and "step cfg g s = Next s'"
  shows "inv_cap cfg s'"
  using assms(2,1)
  by (cases rule: step_cases) (clarsimp simp: inv_cap_def)+

lemma inv_step:
  assumes "pinv cfg s" and "step cfg g s = Next s'"
  shows "pinv cfg s'"
  using assms inv_spawn_step[of cfg s g s'] inv_wg_step[of cfg s g s']
    inv_eos_step[of s cfg g s'] inv_stats_step[of s cfg g s'] inv_cap_step[of cfg s g s']
  by (simp add: pinv_def)

lemma reachable_inv: "reachable cfg s \<Longrightarrow> pinv cfg s"
  by (induction rule: reachable.induct) (auto intro: inv_init inv_step)

lemma run_reachable:
  "reachable cfg s \<Longrightarrow> run cfg gs s = Next s' \<Longrightarrow> reachable cfg s'"
proof (induction gs arbitrary: s)
  case Nil
  then show ?case by simp
next
  case (Cons g gs)
  then obtain s1 where "step cfg g s = Next s1" "run cfg gs s1 = Next s'"
    by (auto simp: bind_res_def split: res.splits)
  with Cons show ?case by (blast intro: reach_step)
qed

lemma weights_nonneg:
  "0 \<le> fA f" "0 \<le> fF f" "0 \<le> fS f" "0 \<le> wA w" "0 \<le> wP w" "0 \<le> wS w"
  by (auto simp: weight_defs split: fpc.splits wpc.splits)

lemma weights_le:
  "fF f \<le> fA f" "fS f \<le> fA f" "wP w \<le> wA w" "wS w \<le> wA w"
  by (auto simp: weight_defs split: fpc.splits wpc.splits)

lemma cnt_zero_of_le:
  assumes "cnt g xs = 0" and "\<And>x. 0 \<le> f x" and "\<And>x. f x \<le> g x"
  shows "cnt f xs = 0"
  using cnt_mono[of f g xs] cnt_nonneg[of f xs] assms by simp

lemma fA_zero_exit: "fA f = 0 \<longleftrightarrow> snd f = FExit"
  by (auto simp: fA_def split: fpc.splits)

lemma wA_zero_exit: "wA w = 0 \<longleftrightarrow> snd w = WExit"
  by (auto simp: wA_def split: wpc.splits)

lemma cnt_zero_nth:
  assumes "cnt f xs = 0" and "\<And>x. 0 \<le> f x" and "i < length xs"
  shows "f (xs ! i) = 0"
  using cnt_nth_le[of f i xs] assms by (simp add: order_antisym)

text \<open>What holds once the output stage has seen the end of its queue.\<close>

lemma output_end_workers:
  assumes "pinv cfg s" and "outp s = OSendDone \<or> outp s = OExit"
  shows "closer2 s = CExit" and "cnt wA (workers s) = 0"
    and "int (length (workers s)) = max 0 (numWorkers cfg)"
    and "pend (mainpc s) = []"
    and "buf (processedData s) = []"
proof -
  from assms have cl: "closed (processedData s)" and b: "buf (processedData s) = []"
    by (auto simp: pinv_def inv_eos_def)
  from cl assms(1) show c2: "closer2 s = CExit" by (simp add: pinv_def inv_wg_def)
  with assms(1) show "cnt wA (workers s) = 0" by (simp add: pinv_def inv_wg_def)
  from c2 assms(1) have r: "3 < rank (mainpc s)"
    by (auto simp: pinv_def inv_spawn_def)
  with assms(1) show "int (length (workers s)) = max 0 (numWorkers cfg)"
    by (simp add: pinv_def inv_spawn_def)
  from r show "pend (mainpc s) = []" by (cases "mainpc s") auto
  from b show "buf (processedData s) = []" .
qed

lemma worker_end_fetchers:
  assumes "pinv cfg s" and "k < length (workers s)"
    and "snd (workers s ! k) = WDefer \<or> snd (workers s ! k) = WExit"
  shows "closer1 s = CExit" and "cnt fA (fetchers s) = 0"
    and "length (fetchers s) = length (sources cfg)"
    and "buf (fetchedData s) = []"
proof -
  from assms have cl: "closed (fetchedData s)" and b: "buf (fetchedData s) = []"
    by (auto simp: pinv_def inv_eos_def)
  from cl assms(1) show c1: "closer1 s = CExit" by (simp add: pinv_def inv_wg_def)
  with assms(1) show "cnt fA (fetchers s) = 0" by (simp add: pinv_def inv_wg_def)
  from c1 assms(1) have r: "1 < rank (mainpc s)"
    by (auto simp: pinv_def inv_spawn_def)
  then have "pend (mainpc s) = []" by (cases "mainpc s") auto
  with assms(1) show "length (fetchers s) = length (sources cfg)"
    by (simp add: pinv_def inv_spawn_def)
  from b show "buf (fetchedData s) = []" .
qed

lemma completion:
  assumes "pinv cfg s" and "1 \<le> numWorkers cfg" and "outp s = OSendDone \<or> outp s = OExit"
  shows "totalFetched (stats s) + errors (stats s) = int (length (sources cfg))"
    and "totalProcessed (stats s) = totalFetched (stats s)"
    and "int (length (printed s)) = totalProcessed (stats s)"
    and "cnt fA (fetchers s) = 0"
proof -
  note w = output_end_workers[OF assms(1,3)]
  from w(3) assms(2) have k: "0 < length (workers s)" by auto
  from cnt_zero_nth[OF w(2) weights_nonneg(4) k] have "snd (workers s ! 0) = WExit"
    by (simp add: wA_zero_exit)
  then have e: "snd (workers s ! 0) = WDefer \<or> snd (workers s ! 0) = WExit" by simp
  note f = worker_end_fetchers[OF assms(1) k e]
  have z: "cnt fF (fetchers s) = 0" "cnt fS (fetchers s) = 0"
    "cnt wP (workers s) = 0" "cnt wS (workers s) = 0"
    using f(2) w(2) by (auto intro: cnt_zero_of_le weights_nonneg weights_le)
  from assms(1) have st: "inv_stats s" by (simp add: pinv_def)
  from st z f(3) show "totalFetched (stats s) + errors (stats s) = int (length (sources cfg))"
    by (simp add: inv_stats_def)
  from st z f(4) show "totalProcessed (stats s) = totalFetched (stats s)"
    by (simp add: inv_stats_def)
  from st z w(5) show "int (length (printed s)) = totalProcessed (stats s)"
    by (simp add: inv_stats_def)
  from f(2) show "cnt fA (fetchers s) = 0" .
qed

lemma processed_le_fetched:
  assumes "pinv cfg s"
  shows "totalProcessed (stats s) \<le> totalFetched (stats s)"
proof -
  from assms have st: "inv_stats s" by (simp add: pinv_def)
  have "0 \<le> cnt fS (fetchers s)" "0 \<le> cnt wP (workers s)"
    by (auto intro: cnt_nonneg weights_nonneg)
  with st show ?thesis by (simp add: inv_stats_def)
qed

lemma fetchWithTimeout_total:
  assumes "\<not> mu st"
  shows "\<exists>r st'. fetchWithTimeout source tmo ft pk st = Next ((Some r, None), st')
       \<or> fetchWithTimeout source tmo ft pk st = Next ((None, Some (timeout_error source)), st')"
  using fetchWithTimeout_cases[OF assms, of source tmo ft pk] by blast

lemma main_no_panic: "pinv cfg s \<Longrightarrow> step_main cfg s \<noteq> Panic"
  using cnt_nonneg[of fA "fetchers s", OF weights_nonneg(1)]
    cnt_nonneg[of wA "workers s", OF weights_nonneg(4)]
  by (auto simp: step_main_def bind_res_def wg_Add_def Print_free pinv_def inv_wg_def inv_stats_def
      split: mpc.splits list.splits)

lemma fetcher_no_panic:
  assumes "pinv cfg s"
  shows "step_fetcher cfg i s \<noteq> Panic"
proof (cases "i < length (fetchers s)")
  case False
  then show ?thesis by (simp add: step_fetcher_def)
next
  case True
  obtain src pc where f: "fetchers s ! i = (src, pc)" by (cases "fetchers s ! i")
  from assms have mu: "\<not> mu (stats s)" by (simp add: pinv_def inv_stats_def)
  from assms have wg: "fetchWg s = cnt fA (fetchers s)" by (simp add: pinv_def inv_wg_def)
  have le: "fA (fetchers s ! i) \<le> fetchWg s"
    using cnt_nth_le[of fA i "fetchers s", OF weights_nonneg(1) True] wg by simp
  show ?thesis
  proof (cases pc)
    case FFetch
    with True f fetchWithTimeout_total[OF mu, of src "timeout cfg" "fetchTime cfg i" "pick cfg i"]
    show ?thesis by (auto simp: step_fetcher_def bind_res_def)
  next
    case (FSend r)
    with f le have "1 \<le> fetchWg s" by (simp add: fA_def)
    with assms have "\<not> closed (fetchedData s)" by (auto simp: pinv_def inv_wg_def)
    with True f FSend show ?thesis
      by (simp add: step_fetcher_def bind_res_def chan_send_def)
  next
    case FDefer
    with f le have "1 \<le> fetchWg s" by (simp add: fA_def)
    with True f FDefer show ?thesis
      by (simp add: step_fetcher_def bind_res_def wg_Done_def wg_Add_def)
  next
    case FExit
    with True f show ?thesis by (simp add: step_fetcher_def)
  qed
qed

lemma worker_no_panic:
  assumes "pinv cfg s"
  shows "step_worker k s \<noteq> Panic"
proof (cases "k < length (workers s)")
  case False
  then show ?thesis by (simp add: step_worker_def)
next
  case True
  obtain wid pc where w: "workers s ! k = (wid, pc)" by (cases "workers s ! k")
  from assms have mu: "\<not> mu (stats s)" by (simp add: pinv_def inv_stats_def)
  from assms have wg: "processWg s = cnt wA (workers s)" by (simp add: pinv_def inv_wg_def)
  have le: "wA (workers s ! k) \<le> processWg s"
    using cnt_nth_le[of wA k "workers s", OF weights_nonneg(4) True] wg by simp
  show ?thesis
  proof (cases pc)
    case WRecv
    with True w show ?thesis
      by (simp add: step_worker_def chan_recv_def split: list.splits)
  next
    case (WProcess job)
    with True w mu show ?thesis
      by (simp add: step_worker_def bind_res_def Increment_free)
  next
    case (WSend r)
    with w le have "1 \<le> processWg s" by (simp add: wA_def)
    with assms have "\<not> closed (processedData s)" by (auto simp: pinv_def inv_wg_def)
    with True w WSend show ?thesis
      by (simp add: step_worker_def bind_res_def chan_send_def)
  next
    case WDefer
    with w le have "1 \<le> processWg s" by (simp add: wA_def)
    with True w WDefer show ?thesis
      by (simp add: step_worker_def bind_res_def wg_Done_def wg_Add_def)
  next
    case WExit
    with True w show ?thesis by (simp add: step_worker_def)
  qed
qed

lemma closers_no_panic:
  assumes "pinv cfg s"
  shows "step_closer1 s \<noteq> Panic" and "step_closer2 s \<noteq> Panic"
  using assms
  by (auto simp: step_closer1_def step_closer2_def bind_res_def wg_Wait_def chan_close_def
      pinv_def inv_wg_def split: cpc.splits)

lemma output_no_panic: "step_output s \<noteq> Panic"
  by (simp add: step_output_def chan_recv_def split: opc.splits list.splits)

lemma step_no_panic: "pinv cfg s \<Longrightarrow> step cfg g s \<noteq> Panic"
  by (cases g)
    (simp_all add: main_no_panic fetcher_no_panic worker_no_panic closers_no_panic
      output_no_panic)

section \<open>Termination and progress\<close>

lemma wC_nonneg: "0 \<le> wC c"
  by (cases c) auto

lemma wO_nonneg: "0 \<le> wO c"
  by (cases c) auto

lemma work_left_step:
  assumes "step cfg g s = Next s'"
  shows "work_left cfg s' < work_left cfg s"
  using assms wC_nonneg[of "closer1 s"] wC_nonneg[of "closer2 s"] wO_nonneg[of "outp s"]
  by (cases rule: step_cases) (clarsimp simp: work_left_def cnt_update wF_def wW_def)+

lemma work_left_nonneg: "0 \<le> work_left cfg s"
proof -
  have "0 \<le> wM cfg (mainpc s)" by (cases "mainpc s") auto
  moreover have "0 \<le> cnt wF (fetchers s)"
    by (rule cnt_nonneg) (auto simp: wF_def split: fpc.splits)
  moreover have "0 \<le> cnt wW (workers s)"
    by (rule cnt_nonneg) (auto simp: wW_def split: wpc.splits)
  moreover have "0 \<le> wC (closer1 s)" by (cases "closer1 s") auto
  moreover have "0 \<le> wC (closer2 s)" by (cases "closer2 s") auto
  moreover have "0 \<le> wO (outp s)" by (cases "outp s") auto
  ultimately show ?thesis by (simp add: work_left_def)
qed

lemma work_left_init: "work_left cfg (init cfg) = run_bound cfg"
  by (simp add: work_left_def init_def run_bound_def make_chan_def)

lemma run_work_left:
  "run cfg gs s = Next s' \<Longrightarrow> int (length gs) + work_left cfg s' \<le> work_left cfg s"
proof (induction gs arbitrary: s)
  case Nil
  then show ?case by simp
next
  case (Cons g gs)
  then obtain s1 where 1: "step cfg g s = Next s1" and 2: "run cfg gs s1 = Next s'"
    by (auto simp: bind_res_def split: res.splits)
  from Cons.IH[OF 2] work_left_step[OF 1] show ?case by simp
qed

lemma run_length_bound:
  assumes "run cfg gs (init cfg) = Next s'"
  shows "int (length gs) \<le> run_bound cfg"
  using run_work_left[OF assms] work_left_nonneg[of cfg s'] by (simp add: work_left_init)

lemma res_Next_cases: "r \<noteq> Stuck \<Longrightarrow> r \<noteq> Panic \<Longrightarrow> \<exists>x. r = Next x"
  by (cases r) auto

lemma main_not_stuck:
  assumes "pinv cfg s" and "mainpc s \<noteq> MWait" and "mainpc s \<noteq> MDone"
  shows "step_main cfg s \<noteq> Stuck"
  using assms cnt_nonneg[of fA "fetchers s", OF weights_nonneg(1)]
    cnt_nonneg[of wA "workers s", OF weights_nonneg(4)]
  by (auto simp: step_main_def bind_res_def wg_Add_def Print_free pinv_def inv_wg_def
      inv_stats_def split: mpc.splits list.splits)

lemma fetcher_not_stuck:
  assumes "pinv cfg s" and "i < length (fetchers s)" and "fA (fetchers s ! i) \<noteq> 0"
    and "buf (fetchedData s) = []" and "1 \<le> capacity cfg"
  shows "step_fetcher cfg i s \<noteq> Stuck"
proof -
  obtain src pc where f: "fetchers s ! i = (src, pc)" by (cases "fetchers s ! i")
  from assms(1) have mu: "\<not> mu (stats s)" by (simp add: pinv_def inv_stats_def)
  from assms(1) have c: "cap (fetchedData s) = capacity cfg" by (simp add: pinv_def inv_cap_def)
  show ?thesis
  proof (cases pc)
    case FFetch
    with assms(2) f
      fetchWithTimeout_total[OF mu, of src "timeout cfg" "fetchTime cfg i" "pick cfg i"]
    show ?thesis by (auto simp: step_fetcher_def bind_res_def)
  next
    case (FSend r)
    with assms(2,4,5) f c show ?thesis
      by (simp add: step_fetcher_def bind_res_def chan_send_def)
  next
    case FDefer
    with assms(2) f show ?thesis
      by (simp add: step_fetcher_def bind_res_def wg_Done_def wg_Add_def)
  next
    case FExit
    with assms(3) f show ?thesis by (simp add: fA_def)
  qed
qed

lemma closer1_not_stuck:
  assumes "closer1 s = CClose \<or> closer1 s = CWait \<and> fetchWg s = 0"
  shows "step_closer1 s \<noteq> Stuck"
  using assms
  by (auto simp: step_closer1_def bind_res_def wg_Wait_def chan_close_def split: if_splits)

lemma closer2_not_stuck:
  assumes "closer2 s = CClose \<or> closer2 s = CWait \<and> processWg s = 0"
  shows "step_closer2 s \<noteq> Stuck"
  using assms
  by (auto simp: step_closer2_def bind_res_def wg_Wait_def chan_close_def split: if_splits)

lemma worker_not_stuck:
  assumes "pinv cfg s" and "k < length (workers s)" and "wA (workers s ! k) \<noteq> 0"
    and "buf (processedData s) = []" and "1 \<le> capacity cfg"
    and "buf (fetchedData s) \<noteq> [] \<or> closed (fetchedData s)"
  shows "step_worker k s \<noteq> Stuck"
proof -
  obtain wid pc where w: "workers s ! k = (wid, pc)" by (cases "workers s ! k")
  from assms(1) have mu: "\<not> mu (stats s)" by (simp add: pinv_def inv_stats_def)
  from assms(1) have c: "cap (processedData s) = capacity cfg"
    by (simp add: pinv_def inv_cap_def)
  show ?thesis
  proof (cases pc)
    case WRecv
    with assms(2,6) w show ?thesis
      by (auto simp: step_worker_def chan_recv_def split: list.splits)
  next
    case (WProcess job)
    with assms(2) w mu show ?thesis
      by (simp add: step_worker_def bind_res_def Increment_free)
  next
    case (WSend r)
    with assms(2,4,5) w c show ?thesis
      by (simp add: step_worker_def bind_res_def chan_send_def)
  next
    case WDefer
    with assms(2) w show ?thesis
      by (simp add: step_worker_def bind_res_def wg_Done_def wg_Add_def)
  next
    case WExit
    with assms(3) w show ?thesis by (simp add: wA_def)
  qed
qed

lemma worker_not_recv_not_stuck:
  assumes "pinv cfg s" and "k < length (workers s)" and "wA (workers s ! k) \<noteq> 0"
    and "buf (processedData s) = []" and "1 \<le> capacity cfg"
    and "snd (workers s ! k) \<noteq> WRecv"
  shows "step_worker k s \<noteq> Stuck"
proof -
  obtain wid pc where w: "workers s ! k = (wid, pc)" by (cases "workers s ! k")
  from assms(1) have mu: "\<not> mu (stats s)" by (simp add: pinv_def inv_stats_def)
  from assms(1) have c: "cap (processedData s) = capacity cfg"
    by (simp add: pinv_def inv_cap_def)
  show ?thesis
  proof (cases pc)
    case WRecv
    with assms(6) w show ?thesis by simp
  next
    case (WProcess job)
    with assms(2) w mu show ?thesis
      by (simp add: step_worker_def bind_res_def Increment_free)
  next
    case (WSend r)
    with assms(2,4,5) w c show ?thesis
      by (simp add: step_worker_def bind_res_def chan_send_def)
  next
    case WDefer
    with assms(2) w show ?thesis
      by (simp add: step_worker_def bind_res_def wg_Done_def wg_Add_def)
  next
    case WExit
    with assms(3) w show ?thesis by (simp add: wA_def)
  qed
qed

lemma output_not_stuck:
  assumes "outp s = OSendDone \<and> mainpc s = MWait
         \<or> outp s = ORecv \<and> (buf (processedData s) \<noteq> [] \<or> closed (processedData s))"
  shows "step_output s \<noteq> Stuck"
  using assms
  by (auto simp: step_output_def chan_recv_def split: list.splits)

text \<open>The fetch stage can move as long as its queue is open and empty.\<close>

lemma fetch_stage_moves:
  assumes "pinv cfg s" and "1 < rank (mainpc s)" and "1 \<le> capacity cfg"
    and "buf (fetchedData s) = []" and "\<not> closed (fetchedData s)"
  shows "\<exists>g. step cfg g s \<noteq> Stuck"
proof -
  from assms(1,2) have ns: "closer1 s \<noteq> CNotStarted" by (auto simp: pinv_def inv_spawn_def)
  from assms(1,5) have ne: "closer1 s \<noteq> CExit" by (simp add: pinv_def inv_wg_def)
  show ?thesis
  proof (cases "closer1 s = CClose \<or> fetchWg s = 0")
    case True
    with ns ne have "closer1 s = CClose \<or> closer1 s = CWait \<and> fetchWg s = 0"
      by (cases "closer1 s") auto
    from closer1_not_stuck[OF this] have "step cfg GCloser1 s \<noteq> Stuck" by simp
    then show ?thesis by blast
  next
    case False
    with assms(1) have "cnt fA (fetchers s) \<noteq> 0" by (simp add: pinv_def inv_wg_def)
    from cnt_pos_ex[OF this] obtain i where i: "i < length (fetchers s)"
      and a: "fA (fetchers s ! i) \<noteq> 0" by blast
    from fetcher_not_stuck[OF assms(1) i a assms(4,3)]
    have "step cfg (GFetcher i) s \<noteq> Stuck" by simp
    then show ?thesis by blast
  qed
qed

text \<open>The worker pool can move as long as its output queue is open and empty.\<close>

lemma process_stage_moves:
  assumes "pinv cfg s" and "3 < rank (mainpc s)" and "1 \<le> capacity cfg \<or> numWorkers cfg < 1"
    and "buf (processedData s) = []" and "\<not> closed (processedData s)"
  shows "\<exists>g. step cfg g s \<noteq> Stuck"
proof -
  from assms(1,2) have ns: "closer2 s \<noteq> CNotStarted" by (auto simp: pinv_def inv_spawn_def)
  from assms(1,5) have ne: "closer2 s \<noteq> CExit" by (simp add: pinv_def inv_wg_def)
  show ?thesis
  proof (cases "closer2 s = CClose \<or> processWg s = 0")
    case True
    with ns ne have "closer2 s = CClose \<or> closer2 s = CWait \<and> processWg s = 0"
      by (cases "closer2 s") auto
    from closer2_not_stuck[OF this] have "step cfg GCloser2 s \<noteq> Stuck" by simp
    then show ?thesis by blast
  next
    case False
    with assms(1) have nz: "cnt wA (workers s) \<noteq> 0" by (simp add: pinv_def inv_wg_def)
    from cnt_pos_ex[OF nz] obtain k where k: "k < length (workers s)"
      and a: "wA (workers s ! k) \<noteq> 0" by blast
    from assms(1,2) k have "int (length (workers s)) = max 0 (numWorkers cfg)"
      by (simp add: pinv_def inv_spawn_def)
    with k assms(3) have c: "1 \<le> capacity cfg" by auto
    show ?thesis
    proof (cases "snd (workers s ! k) = WRecv")
      case False
      from worker_not_recv_not_stuck[OF assms(1) k a assms(4) c False]
      have "step cfg (GWorker k) s \<noteq> Stuck" by simp
      then show ?thesis by blast
    next
      case True
      show ?thesis
      proof (cases "buf (fetchedData s) \<noteq> [] \<or> closed (fetchedData s)")
        case True
        from worker_not_stuck[OF assms(1) k a assms(4) c True]
        have "step cfg (GWorker k) s \<noteq> Stuck" by simp
        then show ?thesis by blast
      next
        case False
        with fetch_stage_moves[OF assms(1) _ c] assms(2) show ?thesis by simp
      qed
    qed
  qed
qed

lemma progress_not_stuck:
  assumes "pinv cfg s" and "1 \<le> capacity cfg \<or> numWorkers cfg < 1" and "mainpc s \<noteq> MDone"
  shows "\<exists>g. step cfg g s \<noteq> Stuck"
proof (cases "mainpc s = MWait")
  case False
  from main_not_stuck[OF assms(1) False assms(3)] have "step cfg GMain s \<noteq> Stuck" by simp
  then show ?thesis by blast
next
  case True
  with assms(1) have o: "outp s \<noteq> ONotStarted" "outp s \<noteq> OExit"
    by (auto simp: pinv_def inv_spawn_def)
  show ?thesis
  proof (cases "outp s = OSendDone \<or> buf (processedData s) \<noteq> [] \<or> closed (processedData s)")
    case True
    with o \<open>mainpc s = MWait\<close> have "outp s = OSendDone \<and> mainpc s = MWait
         \<or> outp s = ORecv \<and> (buf (processedData s) \<noteq> [] \<or> closed (processedData s))"
      by (cases "outp s") auto
    from output_not_stuck[OF this] have "step cfg GOutput s \<noteq> Stuck" by simp
    then show ?thesis by blast
  next
    case False
    with process_stage_moves[OF assms(1) _ assms(2)] True show ?thesis by simp
  qed
qed

lemma progress:
  assumes "pinv cfg s" and "1 \<le> capacity cfg \<or> numWorkers cfg < 1" and "mainpc s \<noteq> MDone"
  shows "\<exists>g s'. step cfg g s = Next s'"
proof -
  from progress_not_stuck[OF assms] obtain g where "step cfg g s \<noteq> Stuck" by blast
  with step_no_panic[OF assms(1), of g] res_Next_cases[of "step cfg g s"] show ?thesis by blast
qed

lemma reaches_done:
  assumes "1 \<le> capacity cfg \<or> numWorkers cfg < 1"
  shows "pinv cfg s \<Longrightarrow> \<exists>gs s'. run cfg gs s = Next s' \<and> mainpc s' = MDone"
proof (induction "nat (work_left cfg s)" arbitrary: s rule: less_induct)
  case less
  show ?case
  proof (cases "mainpc s = MDone")
    case True
    then have "run cfg [] s = Next s \<and> mainpc s = MDone" by simp
    then show ?thesis by blast
  next
    case False
    from progress[OF less.prems assms False] obtain g s1 where st: "step cfg g s = Next s1"
      by blast
    from work_left_step[OF st] work_left_nonneg[of cfg s1]
    have "nat (work_left cfg s1) < nat (work_left cfg s)" by simp
    from less.hyps[OF this inv_step[OF less.prems st]] obtain gs s' where
      "run cfg gs s1 = Next s'" "mainpc s' = MDone" by blast
    with st have "run cfg (g # gs) s = Next s' \<and> mainpc s' = MDone"
      by (simp add: bind_res_def)
    then show ?thesis by blast
  qed
qed

section \<open>Items and the final report\<close>

lemmas src_defs = srcS_def srcF_def srcA_def srcW_def srcP_def


lemma map_fst_update:
  "i < length xs \<Longrightarrow> xs ! i = (a, b) \<Longrightarrow> map fst (xs[i := (a, c)]) = map fst xs"
  by (metis fst_conv list_update_id map_update)

lemma tokens_init: "tokens x (init cfg) = cnt (srcS x) (sources cfg)"
  by (simp add: tokens_def init_def make_chan_def)

lemma tokens_step:
  assumes "step cfg g s = Next s'"
  shows "tokens x s' \<le> tokens x s"
  using assms
  by (cases rule: step_cases)
    (clarsimp simp: tokens_def cnt_update src_defs mk_response_def mk_result_def)+

lemma sources_step:
  assumes "map fst (fetchers s) @ pend (mainpc s) = sources cfg" and "step cfg g s = Next s'"
  shows "map fst (fetchers s') @ pend (mainpc s') = sources cfg"
  using assms(2,1)
  by (cases rule: step_cases) (clarsimp simp: map_fst_update)+

lemma inv_items_init: "inv_items cfg (init cfg)"
  using tokens_init[of _ cfg] by (simp add: inv_items_def init_def)

lemma inv_items_step:
  assumes "inv_items cfg s" and "step cfg g s = Next s'"
  shows "inv_items cfg s'"
  unfolding inv_items_def
proof (intro conjI allI)
  from assms(1) have "map fst (fetchers s) @ pend (mainpc s) = sources cfg"
    by (simp add: inv_items_def)
  then show "map fst (fetchers s') @ pend (mainpc s') = sources cfg"
    using assms(2) by (rule sources_step)
  fix x
  from assms(1) have "tokens x s \<le> cnt (srcS x) (sources cfg)" by (simp add: inv_items_def)
  with tokens_step[OF assms(2), of x] show "tokens x s' \<le> cnt (srcS x) (sources cfg)" by simp
qed

lemma reachable_items: "reachable cfg s \<Longrightarrow> inv_items cfg s"
  by (induction rule: reachable.induct) (auto intro: inv_items_init inv_items_step)

lemma inv_report_init: "inv_report cfg (init cfg)"
  by (simp add: inv_report_def init_def)

lemma inv_report_step:
  assumes "pinv cfg s" and "inv_report cfg s" and "step cfg g s = Next s'"
  shows "inv_report cfg s'"
  using assms(3)
proof (cases rule: step_cases)
  case print
  from assms(1) print(2) have o: "outp s = OSendDone \<or> outp s = OExit"
    by (simp add: pinv_def inv_spawn_def)
  show ?thesis
  proof (cases "1 \<le> numWorkers cfg")
    case True
    from completion(1,2)[OF assms(1) True o] print show ?thesis
      by (simp add: inv_report_def)
  next
    case False
    with print show ?thesis by (simp add: inv_report_def)
  qed
qed (use assms(2) in \<open>clarsimp simp: inv_report_def\<close>)+

lemma reachable_report: "reachable cfg s \<Longrightarrow> inv_report cfg s"
proof (induction rule: reachable.induct)
  case reach_init
  show ?case by (rule inv_report_init)
next
  case (reach_step s g s')
  from reachable_inv[OF reach_step.hyps(1)] reach_step.IH reach_step.hyps(2)
  show ?case by (rule inv_report_step)
qed

lemma cnt_count_list: "cnt (srcS x) ys = int (count_list ys x)"
  by (induction ys) (auto simp: srcS_def)

lemma cnt_count_list_map: "cnt (srcP x) rs = int (count_list (map ProcessedData.Source rs) x)"
  by (induction rs) (auto simp: srcP_def srcS_def)

lemma src_nonneg: "0 \<le> srcS x y" "0 \<le> srcF x f" "0 \<le> srcA x r" "0 \<le> srcW x w" "0 \<le> srcP x p"
  by (auto simp: src_defs split: fpc.splits wpc.splits)

lemma cnt_held: "cnt (srcP x) (concat (map held ws)) \<le> cnt (srcW x) ws"
proof (induction ws)
  case Nil
  show ?case by simp
next
  case (Cons w ws)
  have "cnt (srcP x) (held w) \<le> srcW x w"
    by (auto simp: held_def srcW_def srcP_def srcS_def split: wpc.splits)
  with Cons show ?case by simp
qed

lemma results_le_tokens: "cnt (srcP x) (results s) \<le> tokens x s"
proof -
  have "0 \<le> cnt (srcS x) (pend (mainpc s))" "0 \<le> cnt (srcF x) (fetchers s)"
    "0 \<le> cnt (srcA x) (buf (fetchedData s))"
    by (auto intro: cnt_nonneg src_nonneg)
  with cnt_held[of x "workers s"] show ?thesis
    by (simp add: results_def tokens_def)
qed

lemma results_count:
  assumes "reachable cfg s"
  shows "count_list (map ProcessedData.Source (results s)) x \<le> count_list (sources cfg) x"
proof -
  from reachable_items[OF assms] have "tokens x s \<le> cnt (srcS x) (sources cfg)"
    by (simp add: inv_items_def)
  with results_le_tokens[of x s] show ?thesis
    by (simp add: cnt_count_list cnt_count_list_map)
qed

lemma distinct_count_list: "distinct xs \<longleftrightarrow> (\<forall>x. count_list xs x \<le> 1)"
proof (induction xs)
  case Nil
  show ?case by simp
next
  case (Cons a xs)
  show ?case
  proof
    assume d: "distinct (a # xs)"
    then have "count_list xs a = 0" by (simp add: count_list_0_iff)
    with d Cons show "\<forall>x. count_list (a # xs) x \<le> 1" by auto
  next
    assume c: "\<forall>x. count_list (a # xs) x \<le> 1"
    then have "count_list (a # xs) a \<le> 1" by blast
    then have "a \<notin> set xs" by (simp add: count_list_0_iff)
    moreover have "\<forall>x. count_list xs x \<le> 1"
    proof
      fix x
      from c have "count_list (a # xs) x \<le> 1" by blast
      then show "count_list xs x \<le> 1" by (simp split: if_splits)
    qed
    ultimately show "distinct (a # xs)" using Cons by simp
  qed
qed

lemma results_distinct:
  assumes "reachable cfg s" and "distinct (sources cfg)"
  shows "distinct (map ProcessedData.Source (results s))"
  unfolding distinct_count_list
proof
  fix x
  from assms(2) have "count_list (sources cfg) x \<le> 1" by (simp add: distinct_count_list)
  with results_count[OF assms(1), of x]
  show "count_list (map ProcessedData.Source (results s)) x \<le> 1" by simp
qed
section \<open>The concrete runs\<close>

lemma demo_run: "run demo_config demo_schedule (init demo_config) = Next demo_final"
  by code_simp

lemma demo_sending_run:
  "run demo_config (take 14 demo_schedule) (init demo_config) = Next demo_sending"
  by code_simp

lemma demo_processing_run:
  "run demo_config (take 31 demo_schedule) (init demo_config) = Next demo_processing"
  by code_simp

lemma timeout_run:
  "run timeout_config timeout_schedule (init timeout_config) = Next timeout_final"
  by code_simp

lemma zero_workers_run:
  "run zero_workers_config zero_workers_schedule (init zero_workers_config)
     = Next zero_workers_final"
  by code_simp

lemma demo_final_reachable: "reachable demo_config demo_final"
  using run_reachable[OF reach_init demo_run] .

lemma demo_sending_reachable: "reachable demo_config demo_sending"
  using run_reachable[OF reach_init demo_sending_run] .

lemma demo_processing_reachable: "reachable demo_config demo_processing"
  using run_reachable[OF reach_init demo_processing_run] .

lemma timeout_final_reachable: "reachable timeout_config timeout_final"
  using run_reachable[OF reach_init timeout_run] .

section \<open>Consequences of the invariants\<close>

lemma all_fetchers_exit:
  assumes "cnt fA xs = 0" and "i < length xs"
  shows "snd (xs ! i) = FExit"
  using cnt_zero_nth[OF assms(1) weights_nonneg(1) assms(2)] by (simp add: fA_zero_exit)

lemma all_workers_exit:
  assumes "cnt wA xs = 0" and "k < length xs"
  shows "snd (xs ! k) = WExit"
  using cnt_zero_nth[OF assms(1) weights_nonneg(4) assms(2)] by (simp add: wA_zero_exit)

lemma closed_fetched_producers_done:
  assumes "pinv cfg s" and "closed (fetchedData s)"
  shows "length (fetchers s) = length (sources cfg)"
    and "\<forall>i<length (fetchers s). snd (fetchers s ! i) = FExit"
proof -
  from assms have c1: "closer1 s = CExit" by (simp add: pinv_def inv_wg_def)
  with assms(1) have z: "cnt fA (fetchers s) = 0" by (simp add: pinv_def inv_wg_def)
  from c1 assms(1) have "1 < rank (mainpc s)" by (auto simp: pinv_def inv_spawn_def)
  then have "pend (mainpc s) = []" by (cases "mainpc s") auto
  with assms(1) show "length (fetchers s) = length (sources cfg)"
    by (simp add: pinv_def inv_spawn_def)
  from z show "\<forall>i<length (fetchers s). snd (fetchers s ! i) = FExit"
    by (simp add: all_fetchers_exit)
qed

lemma closed_processed_producers_done:
  assumes "pinv cfg s" and "closed (processedData s)"
  shows "int (length (workers s)) = max 0 (numWorkers cfg)"
    and "\<forall>k<length (workers s). snd (workers s ! k) = WExit"
proof -
  from assms have c2: "closer2 s = CExit" by (simp add: pinv_def inv_wg_def)
  with assms(1) have z: "cnt wA (workers s) = 0" by (simp add: pinv_def inv_wg_def)
  from c2 assms(1) have "3 < rank (mainpc s)" by (auto simp: pinv_def inv_spawn_def)
  with assms(1) show "int (length (workers s)) = max 0 (numWorkers cfg)"
    by (simp add: pinv_def inv_spawn_def)
  from z show "\<forall>k<length (workers s). snd (workers s ! k) = WExit"
    by (simp add: all_workers_exit)
qed

lemma end_of_stream_closed:
  assumes "pinv cfg s"
  shows "k < length (workers s) \<Longrightarrow>
           snd (workers s ! k) = WDefer \<or> snd (workers s ! k) = WExit \<Longrightarrow>
           closed (fetchedData s)"
    and "outp s = OSendDone \<or> outp s = OExit \<Longrightarrow> closed (processedData s)"
  using assms by (auto simp: pinv_def inv_eos_def)

lemma reachable_work_left: "reachable cfg s \<Longrightarrow> work_left cfg s \<le> run_bound cfg"
proof (induction rule: reachable.induct)
  case reach_init
  show ?case by (simp add: work_left_init)
next
  case (reach_step s g s')
  with work_left_step[of cfg g s s'] show ?case by simp
qed

lemma main_finished_output_exit:
  assumes "pinv cfg s" and "mainpc s = MPrint \<or> mainpc s = MDone"
  shows "outp s = OSendDone \<or> outp s = OExit"
  using assms by (auto simp: pinv_def inv_spawn_def)

lemma fetch_counts_once:
  assumes "fetchWithTimeout source tmo ft pk st = Next ((response, err), st')"
  shows "response \<noteq> None \<and> err = None \<and> totalFetched st' = totalFetched st + 1 \<and>
           errors st' = errors st \<and> totalProcessed st' = totalProcessed st
       \<or> response = None \<and> err \<noteq> None \<and> totalFetched st' = totalFetched st \<and>
           errors st' = errors st + 1 \<and> totalProcessed st' = totalProcessed st"
  using fetchWithTimeout_Next[OF assms] by auto

lemma worker_step_errors:
  assumes "step cfg (GWorker k) s = Next s'"
  shows "errors (stats s') = errors (stats s)"
  using assms by (cases rule: step_cases) simp_all

section \<open>The mutex of the statistics\<close>

lemma holding_nonneg: "0 \<le> holding pc"
  by (simp add: holding_def split: tpc.splits)

lemma cnt_two_le:
  assumes "\<And>x. 0 \<le> f x"
  shows "i < k \<Longrightarrow> k < length xs \<Longrightarrow> f (xs ! i) + f (xs ! k) \<le> cnt f xs"
proof (induction xs arbitrary: i k)
  case Nil
  then show ?case by simp
next
  case (Cons a xs)
  from Cons.prems obtain k' where k: "k = Suc k'" "k' < length xs" by (cases k) auto
  show ?case
  proof (cases i)
    case 0
    with k cnt_nth_le[of f k' xs] assms show ?thesis by simp
  next
    case (Suc i')
    with k Cons.prems have "i' < k'" by simp
    from Cons.IH[OF this k(2)] assms[of a] Suc k show ?thesis by simp
  qed
qed

lemma one_holder:
  assumes "cnt holding ts \<le> 1" and "i < length ts" and "j < length ts" and "i \<noteq> j"
    and "holding (ts ! i) = 1"
  shows "holding (ts ! j) = 0"
proof -
  have "holding (ts ! i) + holding (ts ! j) \<le> cnt holding ts"
  proof (cases "i < j")
    case True
    from cnt_two_le[of holding i j ts, OF holding_nonneg True assms(3)] show ?thesis .
  next
    case False
    with assms(4) have "j < i" by simp
    from cnt_two_le[of holding j i ts, OF holding_nonneg this assms(2)] show ?thesis by simp
  qed
  with assms(1,5) holding_nonneg[of "ts ! j"] show ?thesis by simp
qed

lemma call_step_not_holding:
  "holding pc = 0 \<Longrightarrow> mu st \<Longrightarrow> call_step pc st = Stuck"
  by (auto simp: holding_def call_step_def Lock_def bind_res_def split: tpc.splits)

lemma in_snapshot_holding: "in_snapshot pc \<Longrightarrow> holding pc = 1"
  by (auto simp: in_snapshot_def holding_def split: tpc.splits option.splits)

lemma read_so_far_not_holding: "holding pc = 0 \<Longrightarrow> read_so_far st pc"
  by (auto simp: holding_def read_so_far_def split: tpc.splits)

lemma read_so_far_counters:
  "counters st' = counters st \<Longrightarrow> read_so_far st pc \<Longrightarrow> read_so_far st' pc"
  by (auto simp: read_so_far_def counters_def split: tpc.splits option.splits)

lemma mu_bump [simp]: "mu (bump c st) = mu st"
  by (simp add: bump_def split: counter.splits)

lemma call_step_cases:
  assumes "call_step pc st = Next (pc', st')"
  shows "holding pc = 0 \<and> \<not> mu st \<and> mu st' \<and> holding pc' = 1 \<and> counters st' = counters st \<and>
           read_so_far st' pc'
       \<or> holding pc = 1 \<and> holding pc' = 1 \<and> mu st' = mu st \<and>
           (\<exists>c. pc = AtIncrement c \<and> pc' = AtUnlock None \<and> st' = bump c st)
       \<or> holding pc = 1 \<and> holding pc' = 1 \<and> st' = st \<and> in_snapshot pc \<and>
           (read_so_far st pc \<longrightarrow> read_so_far st pc')
       \<or> holding pc = 1 \<and> holding pc' = 0 \<and> mu st \<and> \<not> mu st' \<and> counters st' = counters st"
  using assms
  by (cases pc)
    (auto simp: call_step_def holding_def Lock_def Unlock_def bind_res_def counters_def
      read_so_far_def in_snapshot_def split: if_splits stats_call.splits option.splits)

lemma inv_mutex_step:
  assumes "inv_mutex (st, ts)" and "stats_step i (st, ts) = Next (st', ts')"
  shows "inv_mutex (st', ts')"
proof -
  from assms(2) have i: "i < length ts"
    by (auto simp: stats_step_def split: if_splits)
  with assms(2) obtain pc' where m: "call_step (ts ! i) st = Next (pc', st')"
    and t: "ts' = ts[i := pc']"
    by (auto simp: stats_step_def bind_res_def split: res.splits)
  from assms(1) have c: "cnt holding ts = (if mu st then 1 else 0)"
    and r: "\<forall>k<length ts. read_so_far st (ts ! k)"
    by (auto simp: inv_mutex_def)
  have c': "cnt holding ts' = cnt holding ts + holding pc' - holding (ts ! i)"
    using t i by (simp add: cnt_update)
  from call_step_cases[OF m]
  consider
    (lock) "holding (ts ! i) = 0" "\<not> mu st" "mu st'" "holding pc' = 1"
      "counters st' = counters st" "read_so_far st' pc'"
  | (inc) c where "holding (ts ! i) = 1" "holding pc' = 1" "mu st' = mu st"
      "ts ! i = AtIncrement c" "pc' = AtUnlock None" "st' = bump c st"
  | (read) "holding (ts ! i) = 1" "holding pc' = 1" "st' = st"
      "read_so_far st (ts ! i) \<longrightarrow> read_so_far st pc'"
  | (unlock) "holding (ts ! i) = 1" "holding pc' = 0" "mu st" "\<not> mu st'"
      "counters st' = counters st"
    by blast
  then show ?thesis
  proof cases
    case lock
    have "read_so_far st' (ts' ! k)" if "k < length ts'" for k
      using that t i r lock(5,6) read_so_far_counters[OF lock(5)]
      by (cases "k = i") auto
    with c c' lock show ?thesis by (simp add: inv_mutex_def)
  next
    case inc
    from c inc(1) holding_nonneg have le: "cnt holding ts \<le> 1" by (simp split: if_splits)
    have "read_so_far st' (ts' ! k)" if "k < length ts'" for k
    proof (cases "k = i")
      case True
      with t i inc(5) show ?thesis by (simp add: read_so_far_def)
    next
      case False
      with that t have k: "k < length ts" "ts' ! k = ts ! k" by simp_all
      from one_holder[OF le i k(1) _ inc(1)] False have "holding (ts ! k) = 0" by simp
      with k show ?thesis by (simp add: read_so_far_not_holding)
    qed
    moreover from c inc(1) i cnt_nth_le[of holding i ts, OF holding_nonneg]
    have "mu st" by (auto split: if_splits)
    ultimately show ?thesis using c c' inc by (simp add: inv_mutex_def)
  next
    case read
    have "read_so_far st' (ts' ! k)" if "k < length ts'" for k
      using that t i r read(3,4) by (cases "k = i") auto
    with c c' read show ?thesis by (simp add: inv_mutex_def)
  next
    case unlock
    have "read_so_far st' (ts' ! k)" if "k < length ts'" for k
    proof (cases "k = i")
      case True
      with t i unlock(2) show ?thesis by (simp add: read_so_far_not_holding)
    next
      case False
      with that t r read_so_far_counters[OF unlock(5)] show ?thesis by simp
    qed
    with c c' unlock show ?thesis by (simp add: inv_mutex_def)
  qed
qed

lemma inv_mutex_init: "\<not> mu st0 \<Longrightarrow> inv_mutex (st0, map AtLock ms)"
proof -
  assume "\<not> mu st0"
  moreover have "cnt holding (map AtLock ms) = 0"
    by (induction ms) (auto simp: holding_def)
  ultimately show ?thesis by (simp add: inv_mutex_def read_so_far_def)
qed

lemma stats_reachable_inv:
  assumes "\<not> mu st0"
  shows "stats_reachable st0 ms sts \<Longrightarrow> inv_mutex sts"
proof (induction rule: stats_reachable.induct)
  case stats_init
  from assms show ?case by (rule inv_mutex_init)
next
  case (stats_next sts i sts')
  then show ?case by (cases sts; cases sts') (auto intro: inv_mutex_step)
qed

lemma stats_run_reachable:
  "stats_reachable st0 ms sts \<Longrightarrow> stats_run is sts = Next sts' \<Longrightarrow>
     stats_reachable st0 ms sts'"
proof (induction "is" arbitrary: sts)
  case Nil
  then show ?case by simp
next
  case (Cons i "is")
  then obtain s1 where "stats_step i sts = Next s1" "stats_run is s1 = Next sts'"
    by (auto simp: bind_res_def split: res.splits)
  with Cons show ?case by (blast intro: stats_next)
qed

lemma others_blocked:
  assumes "inv_mutex (st, ts)" and "i < length ts" and "holding (ts ! i) = 1"
    and "j \<noteq> i"
  shows "stats_step j (st, ts) = Stuck"
proof (cases "j < length ts")
  case False
  then show ?thesis by (simp add: stats_step_def)
next
  case True
  from assms(1) have c: "cnt holding ts = (if mu st then 1 else 0)" by (simp add: inv_mutex_def)
  from c assms(2,3) cnt_nth_le[of holding i ts, OF holding_nonneg] have m: "mu st"
    by (auto split: if_splits)
  with c have "cnt holding ts \<le> 1" by simp
  from one_holder[OF this assms(2) True _ assms(3)] assms(4) have "holding (ts ! j) = 0" by simp
  from call_step_not_holding[OF this m] True show ?thesis
    by (simp add: stats_step_def bind_res_def)
qed

lemma snapshot_step_read_only:
  assumes "pc = AtLock Snapshot \<or> in_snapshot pc" and "call_step pc st = Next (pc', st')"
  shows "counters st' = counters st"
  using assms
  by (cases pc)
    (auto simp: call_step_def in_snapshot_def Lock_def Unlock_def bind_res_def counters_def
      split: if_splits option.splits)

lemma Print_snapshot_alone: "Print st = snapshot_alone st"
  by (simp add: Print_def snapshot_alone_def call_step_def Lock_def Unlock_def bind_res_def
      eval_nat_numeral)

lemma Increment_alone:
  "IncrementFetched st = increment_alone CountFetched st"
  "IncrementProcessed st = increment_alone CountProcessed st"
  "IncrementErrors st = increment_alone CountErrors st"
  by (simp_all add: IncrementFetched_def IncrementProcessed_def IncrementErrors_def
      increment_alone_def call_step_def Lock_def Unlock_def bind_res_def bump_def
      eval_nat_numeral)

section \<open>The claims\<close>

subsection \<open>fetchWithTimeout\<close>

text \<open>
  Claim C2. Every call of the timeout-guarded fetch (any source, any timeout, any fetch
  time, with the statistics mutex free as it is between two steps of the pipeline) returns,
  and what it returns reports exactly one of the outcomes success, timeout and underlying
  error, never two and never none. When the fetch completes only after the deadline has
  fired, the response is not yet in its channel when the \<^verbatim>\<open>select\<close> wakes up, the call
  reports the timeout alone and counts one error, and the response that arrives later is
  read by nobody.
\<close>

theorem fetchWithTimeout_one_outcome:
  assumes "\<not> mu st"
  shows "\<exists>res st'.
           fetchWithTimeout source tmo ft pk st = Next (res, st') \<and>
           length (reported source res) = 1 \<and>
           (max 0 tmo < max 0 ft \<longrightarrow>
              responseChan_at source ft (wake ft tmo) = [] \<and>
              responseChan_at source ft (max 0 ft) = [mk_response source ft] \<and>
              res = (None, Some (timeout_error source)) \<and>
              reported source res = [TimeoutError] \<and>
              st' = st\<lparr>errors := errors st + 1\<rparr>)"
proof -
  from fetchWithTimeout_cases[OF assms, of source tmo ft pk]
  consider
    (ok) "fetchWithTimeout source tmo ft pk st =
            Next ((Some (mk_response source ft), None), st\<lparr>totalFetched := totalFetched st + 1\<rparr>)"
      "max 0 ft \<le> max 0 tmo"
  | (late) "fetchWithTimeout source tmo ft pk st =
            Next ((None, Some (timeout_error source)), st\<lparr>errors := errors st + 1\<rparr>)"
    by blast
  then show ?thesis
  proof cases
    case ok
    then show ?thesis by (auto simp: reported_def)
  next
    case late
    then show ?thesis by (auto simp: reported_def responseChan_at_def wake_def)
  qed
qed

theorem fetchWithTimeout_one_outcome_witness:
  "\<not> mu (stats demo_sending) \<and>
   fetchWithTimeout ''API-2'' 1000 1500 0 (stats demo_sending) =
     Next ((None, Some ''timeout fetching from API-2''),
           \<lparr>mu = False, totalFetched = 1, totalProcessed = 0, errors = 1\<rparr>) \<and>
   reported ''API-2'' (None, Some ''timeout fetching from API-2'') = [TimeoutError] \<and>
   responseChan_at ''API-2'' 1500 (wake 1500 1000) = []"
proof -
  have m: "\<not> mu (stats demo_sending)" by (simp add: demo_sending_def)
  from fetchWithTimeout_one_outcome[OF m, of "''API-2''" 1000 1500 0] m show ?thesis
    by (auto simp: demo_sending_def timeout_error_def)
qed

text \<open>
  Claim C10. In every call of the timeout-guarded fetch the underlying-error outcome is
  out of reach: the error channel is empty at every instant, the \<^verbatim>\<open>select\<close> never
  takes its second case, the only error that the call returns is the timeout error, and a
  call whose \<^verbatim>\<open>select\<close> does not take the timeout case returns the response.
\<close>

theorem fetchWithTimeout_no_underlying_error:
  "errorChan_at t = [] \<and>
   select_fetch source ft tmo pk \<noteq> Next (GotError e) \<and>
   (fetchWithTimeout source tmo ft pk st = Next ((response, err), st') \<longrightarrow>
      (err = None \<or> err = Some (timeout_error source)) \<and>
      UnderlyingError e \<notin> set (reported source (response, err)) \<and>
      (select_fetch source ft tmo pk \<noteq> Next GotTimeout \<longrightarrow>
         response = Some (mk_response source ft) \<and> err = None))"
proof -
  have 1: "errorChan_at t = []" by (simp add: errorChan_at_def)
  have 2: "select_fetch source ft tmo pk \<noteq> Next (GotError e)"
    using select_fetch_cases[of source ft tmo pk] by auto
  have 3: "(err = None \<or> err = Some (timeout_error source)) \<and>
      UnderlyingError e \<notin> set (reported source (response, err)) \<and>
      (select_fetch source ft tmo pk \<noteq> Next GotTimeout \<longrightarrow>
         response = Some (mk_response source ft) \<and> err = None)"
    if f: "fetchWithTimeout source tmo ft pk st = Next ((response, err), st')"
  proof -
    from fetchWithTimeout_Next[OF f] have m: "\<not> mu st" by simp
    from fetchWithTimeout_cases[OF m, of source tmo ft pk] f show ?thesis
      by (auto simp: reported_def)
  qed
  from 1 2 3 show ?thesis by blast
qed

theorem fetchWithTimeout_no_underlying_error_witness:
  "fetchWithTimeout ''API-1'' 1000 100 0 (stats demo_processing) =
     Next ((Some (mk_response ''API-1'' 100), None),
           \<lparr>mu = False, totalFetched = 6, totalProcessed = 0, errors = 0\<rparr>) \<and>
   select_fetch ''API-1'' 100 1000 0 \<noteq> Next GotTimeout \<and>
   UnderlyingError ''boom'' \<notin> set (reported ''API-1'' (Some (mk_response ''API-1'' 100), None))"
proof -
  have f: "fetchWithTimeout ''API-1'' 1000 100 0 (stats demo_processing) =
     Next ((Some (mk_response ''API-1'' 100), None),
           \<lparr>mu = False, totalFetched = 6, totalProcessed = 0, errors = 0\<rparr>)"
    by (simp add: demo_processing_def Increment_free fetchWithTimeout_def select_fetch_def
        ready_cases_wake bind_res_def)
  have s: "select_fetch ''API-1'' 100 1000 0 \<noteq> Next GotTimeout"
    by (simp add: select_fetch_def ready_cases_wake)
  from fetchWithTimeout_no_underlying_error[of 0 "''API-1''" 100 1000 0 "''boom''"
      "stats demo_processing" "Some (mk_response ''API-1'' 100)" None
      "\<lparr>mu = False, totalFetched = 6, totalProcessed = 0, errors = 0\<rparr>"] f s
  show ?thesis by simp
qed

subsection \<open>The statistics\<close>

text \<open>
  Claim C5. A snapshot of the statistics (\<^verbatim>\<open>Print\<close>, the only reader) reads the three
  counters in one critical section. Among any number of concurrent callers of the methods,
  from a \<^verbatim>\<open>Stats\<close> whose mutex is free: whatever a snapshot has read so far, and the
  triple it is about to return, are the counters as they are now; while a snapshot is
  between its \<^verbatim>\<open>Lock\<close> and its \<^verbatim>\<open>Unlock\<close> the mutex is held and no other caller
  can take a step, so no increment falls between two of its reads; no statement of a
  snapshot changes a counter, only the increment statement does. \<^verbatim>\<open>Print\<close> as one step
  is the snapshot that runs alone: on a free mutex it returns the three counters and leaves
  the statistics as they were, so that a second snapshot with no increment in between
  returns the same triple; and while the mutex is held every increment blocks.
\<close>

theorem Print_coherent_idempotent:
  assumes "\<not> mu st0" and "stats_reachable st0 ms (st, ts)"
  shows "(\<forall>i<length ts. read_so_far st (ts ! i)) \<and>
         (\<forall>i<length ts. \<forall>t. ts ! i = AtUnlock (Some t) \<longrightarrow>
            t = (totalFetched st, totalProcessed st, errors st)) \<and>
         (\<forall>i<length ts. in_snapshot (ts ! i) \<longrightarrow>
            mu st \<and> (\<forall>j. j \<noteq> i \<longrightarrow> stats_step j (st, ts) = Stuck)) \<and>
         (\<forall>i st' ts'. stats_step i (st, ts) = Next (st', ts') \<longrightarrow>
            ((ts ! i = AtLock Snapshot \<or> in_snapshot (ts ! i)) \<longrightarrow> counters st' = counters st) \<and>
            (counters st' \<noteq> counters st \<longrightarrow> (\<exists>c. ts ! i = AtIncrement c))) \<and>
         (\<forall>x. Print x = snapshot_alone x) \<and>
         Print st0 = Next ((totalFetched st0, totalProcessed st0, errors st0), st0) \<and>
         bind_res (Print st0) (\<lambda>(out1, st1).
           bind_res (Print st1) (\<lambda>(out2, st2). Next (out1, out2, st2)))
           = Next ((totalFetched st0, totalProcessed st0, errors st0),
                   (totalFetched st0, totalProcessed st0, errors st0), st0) \<and>
         Lock st0 = Next (st0\<lparr>mu := True\<rparr>) \<and>
         IncrementFetched (st0\<lparr>mu := True\<rparr>) = Stuck \<and>
         IncrementProcessed (st0\<lparr>mu := True\<rparr>) = Stuck \<and>
         IncrementErrors (st0\<lparr>mu := True\<rparr>) = Stuck"
proof -
  note i = stats_reachable_inv[OF assms]
  then have 1: "\<forall>i<length ts. read_so_far st (ts ! i)" by (simp add: inv_mutex_def)
  have 2: "\<forall>i<length ts. \<forall>t. ts ! i = AtUnlock (Some t) \<longrightarrow>
            t = (totalFetched st, totalProcessed st, errors st)"
  proof (intro allI impI)
    fix i t
    assume l: "i < length ts" and u: "ts ! i = AtUnlock (Some t)"
    from 1 l have "read_so_far st (ts ! i)" by blast
    with u show "t = (totalFetched st, totalProcessed st, errors st)"
      by (simp add: read_so_far_def counters_def)
  qed
  have 3: "\<forall>i<length ts. in_snapshot (ts ! i) \<longrightarrow>
            mu st \<and> (\<forall>j. j \<noteq> i \<longrightarrow> stats_step j (st, ts) = Stuck)"
  proof (intro allI impI)
    fix i
    assume l: "i < length ts" and s: "in_snapshot (ts ! i)"
    note h = in_snapshot_holding[OF s]
    from i have "cnt holding ts = (if mu st then 1 else 0)" by (simp add: inv_mutex_def)
    with h l cnt_nth_le[of holding i ts, OF holding_nonneg] have "mu st"
      by (auto split: if_splits)
    moreover have "\<forall>j. j \<noteq> i \<longrightarrow> stats_step j (st, ts) = Stuck"
      using others_blocked[OF i l h] by blast
    ultimately show "mu st \<and> (\<forall>j. j \<noteq> i \<longrightarrow> stats_step j (st, ts) = Stuck)" by blast
  qed
  have 4: "\<forall>i st' ts'. stats_step i (st, ts) = Next (st', ts') \<longrightarrow>
            ((ts ! i = AtLock Snapshot \<or> in_snapshot (ts ! i)) \<longrightarrow> counters st' = counters st) \<and>
            (counters st' \<noteq> counters st \<longrightarrow> (\<exists>c. ts ! i = AtIncrement c))"
  proof (intro allI impI)
    fix i st' ts'
    assume "stats_step i (st, ts) = Next (st', ts')"
    then obtain pc' where m: "call_step (ts ! i) st = Next (pc', st')"
      by (auto simp: stats_step_def bind_res_def split: if_splits res.splits)
    have "counters st' = counters st" if "ts ! i = AtLock Snapshot \<or> in_snapshot (ts ! i)"
      using snapshot_step_read_only[OF that m] .
    moreover have "\<exists>c. ts ! i = AtIncrement c" if "counters st' \<noteq> counters st"
      using call_step_cases[OF m] that by auto
    ultimately show "((ts ! i = AtLock Snapshot \<or> in_snapshot (ts ! i)) \<longrightarrow>
        counters st' = counters st) \<and>
        (counters st' \<noteq> counters st \<longrightarrow> (\<exists>c. ts ! i = AtIncrement c))"
      by blast
  qed
  have 5: "\<forall>x. Print x = snapshot_alone x" by (simp add: Print_snapshot_alone)
  have 6: "Print st0 = Next ((totalFetched st0, totalProcessed st0, errors st0), st0) \<and>
         bind_res (Print st0) (\<lambda>(out1, st1).
           bind_res (Print st1) (\<lambda>(out2, st2). Next (out1, out2, st2)))
           = Next ((totalFetched st0, totalProcessed st0, errors st0),
                   (totalFetched st0, totalProcessed st0, errors st0), st0) \<and>
         Lock st0 = Next (st0\<lparr>mu := True\<rparr>) \<and>
         IncrementFetched (st0\<lparr>mu := True\<rparr>) = Stuck \<and>
         IncrementProcessed (st0\<lparr>mu := True\<rparr>) = Stuck \<and>
         IncrementErrors (st0\<lparr>mu := True\<rparr>) = Stuck"
    using assms(1) held_blocks[of "st0\<lparr>mu := True\<rparr>"]
    by (simp add: Print_free bind_res_def Lock_def)
  from 1 2 3 4 5 6 show ?thesis by blast
qed

theorem Print_coherent_idempotent_witness:
  "\<not> mu (stats demo_sending) \<and>
   stats_run [1, 1, 1, 0, 0, 0] (stats demo_sending, map AtLock stats_callers)
     = Next stats_midway \<and>
   stats_reachable (stats demo_sending) stats_callers stats_midway \<and>
   in_snapshot (snd stats_midway ! 0) \<and>
   stats_step 2 stats_midway = Stuck \<and>
   stats_run [0, 0] stats_midway
     = Next (\<lparr>mu = False, totalFetched = 2, totalProcessed = 0, errors = 0\<rparr>,
             [Returned (Some (2, 0, 0)), Returned None, AtLock (Increment CountErrors)]) \<and>
   Print (stats demo_sending) = Next ((1, 0, 0), stats demo_sending)"
proof -
  have m: "\<not> mu (stats demo_sending)" by (simp add: demo_sending_def)
  have r: "stats_run [1, 1, 1, 0, 0, 0] (stats demo_sending, map AtLock stats_callers)
     = Next stats_midway"
    by code_simp
  have e: "stats_midway = (fst stats_midway, snd stats_midway)" by simp
  from stats_run_reachable[OF stats_init r]
  have s: "stats_reachable (stats demo_sending) stats_callers (fst stats_midway, snd stats_midway)"
    by simp
  have n: "in_snapshot (snd stats_midway ! 0)" "0 < length (snd stats_midway)"
    by (simp_all add: stats_midway_def in_snapshot_def)
  have f: "stats_run [0, 0] stats_midway
     = Next (\<lparr>mu = False, totalFetched = 2, totalProcessed = 0, errors = 0\<rparr>,
             [Returned (Some (2, 0, 0)), Returned None, AtLock (Increment CountErrors)])"
    by code_simp
  have v: "totalFetched (stats demo_sending) = 1" "totalProcessed (stats demo_sending) = 0"
    "errors (stats demo_sending) = 0"
    by (simp_all add: demo_sending_def)
  have two: "(2::nat) \<noteq> 0" by simp
  from Print_coherent_idempotent[OF m s] n two
  have "stats_step 2 (fst stats_midway, snd stats_midway) = Stuck"
    and "Print (stats demo_sending)
       = Next ((totalFetched (stats demo_sending), totalProcessed (stats demo_sending),
                errors (stats demo_sending)), stats demo_sending)"
    by blast+
  with m r s n f show ?thesis unfolding v by simp
qed

subsection \<open>The pipeline\<close>

text \<open>
  Claim C1. For every run of the pipeline over N sources (with at least one worker, as
  in the program, which starts three), once the run is complete, that is once
  \<^verbatim>\<open>demonstrateIntegrated\<close> has received \<^verbatim>\<open>done\<close>, the statistics satisfy
  fetched + errors = N, and so do the numbers it prints. One fetch goroutine was started
  per source, in the order of the sources, and each has finished; and each call of the
  fetch increments exactly one of the two counters, fetched on success and errors
  otherwise.
\<close>

theorem fetched_plus_errors_at_completion:
  assumes "reachable cfg s" and "1 \<le> numWorkers cfg"
    and "mainpc s = MPrint \<or> mainpc s = MDone"
  shows "totalFetched (stats s) + errors (stats s) = int (length (sources cfg)) \<and>
         map fst (fetchers s) = sources cfg \<and>
         (\<forall>i<length (fetchers s). snd (fetchers s ! i) = FExit) \<and>
         (mainpc s = MDone \<longrightarrow>
            (\<exists>f p e. report s = Some (f, p, e) \<and> f + e = int (length (sources cfg)))) \<and>
         (\<forall>source tmo ft pk st response err st'.
            fetchWithTimeout source tmo ft pk st = Next ((response, err), st') \<longrightarrow>
              response \<noteq> None \<and> err = None \<and> totalFetched st' = totalFetched st + 1 \<and>
                errors st' = errors st
            \<or> response = None \<and> err \<noteq> None \<and> totalFetched st' = totalFetched st \<and>
                errors st' = errors st + 1)"
proof -
  note i = reachable_inv[OF assms(1)]
  note o = main_finished_output_exit[OF i assms(3)]
  from completion(1)[OF i assms(2) o]
  have 1: "totalFetched (stats s) + errors (stats s) = int (length (sources cfg))" .
  from assms(3) have p: "pend (mainpc s) = []" by auto
  with reachable_items[OF assms(1)] have 2: "map fst (fetchers s) = sources cfg"
    by (simp add: inv_items_def)
  from completion(4)[OF i assms(2) o]
  have 3: "\<forall>i<length (fetchers s). snd (fetchers s ! i) = FExit"
    by (simp add: all_fetchers_exit)
  have 4: "\<exists>f p e. report s = Some (f, p, e) \<and> f + e = int (length (sources cfg))"
    if "mainpc s = MDone"
  proof -
    from reachable_report[OF assms(1)] that obtain f p e where r: "report s = Some (f, p, e)"
      by (auto simp: inv_report_def)
    with reachable_report[OF assms(1)] assms(2) have "f + e = int (length (sources cfg))"
      by (simp add: inv_report_def)
    with r show ?thesis by blast
  qed
  have 5: "response \<noteq> None \<and> err = None \<and> totalFetched st' = totalFetched st + 1 \<and>
                errors st' = errors st
            \<or> response = None \<and> err \<noteq> None \<and> totalFetched st' = totalFetched st \<and>
                errors st' = errors st + 1"
    if "fetchWithTimeout source tmo ft pk st = Next ((response, err), st')"
    for source tmo ft pk st response err st'
    using fetch_counts_once[OF that] by blast
  from 1 2 3 4 5 show ?thesis by blast
qed

theorem fetched_plus_errors_at_completion_witness:
  "reachable timeout_config timeout_final \<and> 1 \<le> numWorkers timeout_config \<and>
   mainpc timeout_final = MDone \<and>
   totalFetched (stats timeout_final) = 1 \<and> errors (stats timeout_final) = 1 \<and>
   totalFetched (stats timeout_final) + errors (stats timeout_final)
     = int (length (sources timeout_config)) \<and>
   map fst (fetchers timeout_final) = sources timeout_config"
proof -
  have w: "1 \<le> numWorkers timeout_config" by (simp add: timeout_config_def)
  have m: "mainpc timeout_final = MPrint \<or> mainpc timeout_final = MDone"
    by (simp add: timeout_final_def)
  have v: "mainpc timeout_final = MDone" "totalFetched (stats timeout_final) = 1"
    "errors (stats timeout_final) = 1"
    by (simp_all add: timeout_final_def)
  from fetched_plus_errors_at_completion[OF timeout_final_reachable w m]
    timeout_final_reachable w v
  show ?thesis by blast
qed

text \<open>
  Claim C3. In every reachable state of a run, processed \<open>\<le>\<close> fetched. The worker has no
  failing transform, so with at least one worker the two counters are equal once the run
  is complete.
\<close>

theorem processed_le_fetched_always:
  assumes "reachable cfg s"
  shows "totalProcessed (stats s) \<le> totalFetched (stats s) \<and>
         (1 \<le> numWorkers cfg \<longrightarrow> mainpc s = MPrint \<or> mainpc s = MDone \<longrightarrow>
            totalProcessed (stats s) = totalFetched (stats s))"
proof -
  note i = reachable_inv[OF assms]
  have "totalProcessed (stats s) = totalFetched (stats s)"
    if "1 \<le> numWorkers cfg" and "mainpc s = MPrint \<or> mainpc s = MDone"
    using completion(2)[OF i that(1) main_finished_output_exit[OF i that(2)]] .
  with processed_le_fetched[OF i] show ?thesis by blast
qed

theorem processed_le_fetched_always_witness:
  "reachable demo_config demo_processing \<and>
   totalProcessed (stats demo_processing) = 0 \<and> totalFetched (stats demo_processing) = 5 \<and>
   totalProcessed (stats demo_processing) \<le> totalFetched (stats demo_processing) \<and>
   reachable demo_config demo_final \<and> 1 \<le> numWorkers demo_config \<and>
   mainpc demo_final = MDone \<and>
   totalProcessed (stats demo_final) = totalFetched (stats demo_final)"
proof -
  have w: "1 \<le> numWorkers demo_config" by (simp add: demo_config_def integrated_config_def)
  have m: "mainpc demo_final = MDone" by (simp add: demo_final_def)
  have v: "totalProcessed (stats demo_processing) = 0"
    "totalFetched (stats demo_processing) = 5"
    by (simp_all add: demo_processing_def)
  from processed_le_fetched_always[OF demo_processing_reachable]
    processed_le_fetched_always[OF demo_final_reachable]
    demo_processing_reachable demo_final_reachable w m v
  show ?thesis by blast
qed

text \<open>
  Claim C4. For every run with at least one worker and stage queues of capacity at least
  one (every fetch completes or times out: the fetch step is total): a queue is closed, and
  a fortiori a consumer sees its end, only when every producer of the queue has been
  started and has finished; no step panics; as long as \<^verbatim>\<open>demonstrateIntegrated\<close> is not
  done some goroutine can take a step, so that nothing is left blocked by a missed close;
  every run from the state on has at most \<open>work_left\<close> steps, itself at most
  \<open>run_bound\<close>; a run that no goroutine can extend has reached the state Done; and some
  run from the state on ends there.
\<close>

theorem pipeline_reaches_done:
  assumes "reachable cfg s" and "1 \<le> numWorkers cfg" and "1 \<le> capacity cfg"
  shows "(closed (fetchedData s) \<longrightarrow>
            length (fetchers s) = length (sources cfg) \<and>
            (\<forall>i<length (fetchers s). snd (fetchers s ! i) = FExit)) \<and>
         (\<forall>k<length (workers s).
            snd (workers s ! k) = WDefer \<or> snd (workers s ! k) = WExit \<longrightarrow>
            closed (fetchedData s) \<and> buf (fetchedData s) = []) \<and>
         (closed (processedData s) \<longrightarrow>
            int (length (workers s)) = numWorkers cfg \<and>
            (\<forall>k<length (workers s). snd (workers s ! k) = WExit)) \<and>
         (outp s = OSendDone \<or> outp s = OExit \<longrightarrow>
            closed (processedData s) \<and> buf (processedData s) = []) \<and>
         (\<forall>g. step cfg g s \<noteq> Panic) \<and>
         (mainpc s \<noteq> MDone \<longrightarrow> (\<exists>g s'. step cfg g s = Next s')) \<and>
         (\<forall>gs s'. run cfg gs s = Next s' \<longrightarrow> int (length gs) \<le> work_left cfg s) \<and>
         work_left cfg s \<le> run_bound cfg \<and>
         (\<forall>gs s'. run cfg gs s = Next s' \<and> (\<forall>g s''. step cfg g s' \<noteq> Next s'') \<longrightarrow>
            mainpc s' = MDone) \<and>
         (\<exists>gs s'. run cfg gs s = Next s' \<and> mainpc s' = MDone)"
proof -
  note i = reachable_inv[OF assms(1)]
  from assms(3) have c: "1 \<le> capacity cfg \<or> numWorkers cfg < 1" by simp
  have 1: "closed (fetchedData s) \<longrightarrow>
            length (fetchers s) = length (sources cfg) \<and>
            (\<forall>i<length (fetchers s). snd (fetchers s ! i) = FExit)"
    using closed_fetched_producers_done[OF i] by blast
  have 2: "\<forall>k<length (workers s).
            snd (workers s ! k) = WDefer \<or> snd (workers s ! k) = WExit \<longrightarrow>
            closed (fetchedData s) \<and> buf (fetchedData s) = []"
    using i by (simp add: pinv_def inv_eos_def)
  have 3: "closed (processedData s) \<longrightarrow>
            int (length (workers s)) = numWorkers cfg \<and>
            (\<forall>k<length (workers s). snd (workers s ! k) = WExit)"
    using closed_processed_producers_done[OF i] assms(2) by auto
  have 4: "outp s = OSendDone \<or> outp s = OExit \<longrightarrow>
            closed (processedData s) \<and> buf (processedData s) = []"
    using i by (simp add: pinv_def inv_eos_def)
  have 5: "\<forall>g. step cfg g s \<noteq> Panic" using step_no_panic[OF i] by blast
  have 6: "mainpc s \<noteq> MDone \<longrightarrow> (\<exists>g s'. step cfg g s = Next s')"
    using progress[OF i c] by blast
  have 7: "\<forall>gs s'. run cfg gs s = Next s' \<longrightarrow> int (length gs) \<le> work_left cfg s"
  proof (intro allI impI)
    fix gs s'
    assume "run cfg gs s = Next s'"
    from run_work_left[OF this] work_left_nonneg[of cfg s']
    show "int (length gs) \<le> work_left cfg s" by simp
  qed
  note 8 = reachable_work_left[OF assms(1)]
  have 9: "\<forall>gs s'. run cfg gs s = Next s' \<and> (\<forall>g s''. step cfg g s' \<noteq> Next s'') \<longrightarrow>
            mainpc s' = MDone"
  proof (intro allI impI)
    fix gs s'
    assume a: "run cfg gs s = Next s' \<and> (\<forall>g s''. step cfg g s' \<noteq> Next s'')"
    then have "reachable cfg s'" using run_reachable[OF assms(1)] by blast
    from progress[OF reachable_inv[OF this] c] a show "mainpc s' = MDone" by blast
  qed
  note 10 = reaches_done[OF c i]
  from 1 2 3 4 5 6 7 8 9 10 show ?thesis by blast
qed

theorem pipeline_reaches_done_witness:
  "reachable demo_config demo_sending \<and> 1 \<le> numWorkers demo_config \<and>
   1 \<le> capacity demo_config \<and> mainpc demo_sending \<noteq> MDone \<and>
   (\<exists>g s'. step demo_config g demo_sending = Next s') \<and>
   run demo_config (drop 14 demo_schedule) demo_sending = Next demo_final \<and>
   int (length (drop 14 demo_schedule)) \<le> work_left demo_config demo_sending \<and>
   work_left demo_config demo_sending \<le> run_bound demo_config \<and>
   mainpc demo_final = MDone \<and> closed (fetchedData demo_final) \<and>
   length (fetchers demo_final) = length (sources demo_config)"
proof -
  have w: "1 \<le> numWorkers demo_config" by (simp add: demo_config_def integrated_config_def)
  have c: "1 \<le> capacity demo_config" by (simp add: demo_config_def integrated_config_def)
  have m: "mainpc demo_sending \<noteq> MDone" by (simp add: demo_sending_def)
  have r: "run demo_config (drop 14 demo_schedule) demo_sending = Next demo_final"
    by code_simp
  have f: "mainpc demo_final = MDone" "closed (fetchedData demo_final)"
    by (simp_all add: demo_final_def)
  from pipeline_reaches_done[OF demo_sending_reachable w c]
    pipeline_reaches_done[OF demo_final_reachable w c]
    demo_sending_reachable w c m r f
  show ?thesis by blast
qed

text \<open>
  Claim C6. At most one processed result is produced from an input item: a receive takes
  the item out of the queue, so that only the receiving worker has it, and in every
  reachable state the results produced so far (printed, queued for output, or held by a
  worker about to send) carry each source identifier at most as often as the inputs do;
  with distinct inputs, as in the program, no two results share a source identifier.
\<close>

theorem one_result_per_item:
  assumes "reachable cfg s"
  shows "(\<forall>x. count_list (map ProcessedData.Source (results s)) x
               \<le> count_list (sources cfg) x) \<and>
         (distinct (sources cfg) \<longrightarrow> distinct (map ProcessedData.Source (results s))) \<and>
         (\<forall>k wid job c. k < length (workers s) \<and> workers s ! k = (wid, WRecv) \<and>
            chan_recv (fetchedData s) = RItem job c \<longrightarrow>
              buf (fetchedData s) = job # buf c \<and>
              step cfg (GWorker k) s
                = Next (s\<lparr>workers := (workers s)[k := (wid, WProcess job)],
                          fetchedData := c\<rparr>))"
proof -
  have 1: "\<forall>x. count_list (map ProcessedData.Source (results s)) x
               \<le> count_list (sources cfg) x"
    using results_count[OF assms] by blast
  have 2: "distinct (sources cfg) \<longrightarrow> distinct (map ProcessedData.Source (results s))"
    using results_distinct[OF assms] by blast
  have 3: "buf (fetchedData s) = job # buf c \<and>
              step cfg (GWorker k) s
                = Next (s\<lparr>workers := (workers s)[k := (wid, WProcess job)],
                          fetchedData := c\<rparr>)"
    if "k < length (workers s) \<and> workers s ! k = (wid, WRecv) \<and>
            chan_recv (fetchedData s) = RItem job c" for k wid job c
    using that by (auto simp: step_worker_def chan_recv_def split: list.splits if_splits)
  from 1 2 3 show ?thesis by blast
qed

theorem one_result_per_item_witness:
  "reachable demo_config demo_final \<and> distinct (sources demo_config) \<and>
   map ProcessedData.Source (results demo_final)
     = [''API-1'', ''API-2'', ''API-3'', ''API-4'', ''API-5''] \<and>
   distinct (map ProcessedData.Source (results demo_final))"
proof -
  have d: "distinct (sources demo_config)"
    by (simp add: demo_config_def integrated_config_def)
  have r: "map ProcessedData.Source (results demo_final)
     = [''API-1'', ''API-2'', ''API-3'', ''API-4'', ''API-5'']"
    by (simp add: results_def demo_final_def held_def)
  from one_result_per_item[OF demo_final_reachable] demo_final_reachable d r
  show ?thesis by blast
qed

subsection \<open>Where the program differs\<close>

text \<open>
  Claim C7, as stated: a send on a stage queue after its close fails with a
  ClosedChannelError value reported to the sender. The stage queues are Go channels: a send
  on a closed channel panics, and the program has no \<^verbatim>\<open>recover\<close>. Here on a queue of
  capacity five, closed while empty.
\<close>

theorem send_after_close_counterexample:
  "chan_close (make_chan 5) = Next \<lparr>buf = [], cap = 5, closed = True\<rparr> \<and>
   chan_send \<lparr>buf = [], cap = 5, closed = True\<rparr> (mk_response ''API-1'' 100) = Panic"
  by (simp add: chan_close_def chan_send_def make_chan_def)

text \<open>
  Claim C7, amended. A send on a closed stage queue panics, for every queue and every
  item; and in no reachable state of the pipeline is a goroutine about to send on a closed
  queue, so that no step of a run panics.
\<close>

theorem no_send_on_closed_queue:
  assumes "reachable cfg s"
  shows "(\<forall>c r. closed c \<longrightarrow> chan_send c r = (Panic :: APIResponse chan res)) \<and>
         (\<forall>c p. closed c \<longrightarrow> chan_send c p = (Panic :: ProcessedData chan res)) \<and>
         (\<forall>i src r. i < length (fetchers s) \<and> fetchers s ! i = (src, FSend r) \<longrightarrow>
            \<not> closed (fetchedData s)) \<and>
         (\<forall>k wid p. k < length (workers s) \<and> workers s ! k = (wid, WSend p) \<longrightarrow>
            \<not> closed (processedData s)) \<and>
         (\<forall>g. step cfg g s \<noteq> Panic)"
proof -
  note i = reachable_inv[OF assms]
  have 1: "\<not> closed (fetchedData s)"
    if "i < length (fetchers s) \<and> fetchers s ! i = (src, FSend r)" for i src r
  proof
    assume "closed (fetchedData s)"
    with that have "step_fetcher cfg i s = Panic"
      by (simp add: step_fetcher_def bind_res_def chan_send_def)
    with fetcher_no_panic[OF i, of i] show False by simp
  qed
  have 2: "\<not> closed (processedData s)"
    if "k < length (workers s) \<and> workers s ! k = (wid, WSend p)" for k wid p
  proof
    assume "closed (processedData s)"
    with that have "step_worker k s = Panic"
      by (simp add: step_worker_def bind_res_def chan_send_def)
    with worker_no_panic[OF i, of k] show False by simp
  qed
  have 3: "\<forall>g. step cfg g s \<noteq> Panic" using step_no_panic[OF i] by blast
  from 1 2 3 show ?thesis by (simp add: chan_send_def)
qed

theorem no_send_on_closed_queue_witness:
  "reachable demo_config demo_sending \<and>
   fetchers demo_sending ! 0 = (''API-1'', FSend (mk_response ''API-1'' 100)) \<and>
   \<not> closed (fetchedData demo_sending) \<and>
   step demo_config (GFetcher 0) demo_sending \<noteq> Panic \<and>
   reachable demo_config demo_final \<and> closed (fetchedData demo_final) \<and>
   chan_send (fetchedData demo_final) (mk_response ''API-1'' 100) = Panic"
proof -
  have f: "0 < length (fetchers demo_sending) \<and>
           fetchers demo_sending ! 0 = (''API-1'', FSend (mk_response ''API-1'' 100))"
    by (simp add: demo_sending_def mk_response_def)
  have c: "closed (fetchedData demo_final)" by (simp add: demo_final_def)
  from no_send_on_closed_queue[OF demo_sending_reachable]
    no_send_on_closed_queue[OF demo_final_reachable]
    demo_sending_reachable demo_final_reachable f c
  show ?thesis by blast
qed





end
